theory Spec2Isabelle
  imports Main
begin

unbundle bit_operations_syntax

section \<open>Data model\<close>

text \<open>
  The program is the class \<open>TuckerLsb\<close> of \<open>tuckerlsb.py\<close>. A message (a Python
  \<open>str\<close>) is the list of its code points (\<open>ord\<close> of each character); the binary strings
  the program builds are Python strings over the digits, kept here as \<open>string\<close>. A pixel is
  the tuple of integer channel values of a multi-band image; the image is what
  \<open>Image.open\<close> and \<open>image.load()\<close> give: \<open>image.size\<close>, which is (width, height),
  and the pixel at each coordinate \<open>(x, y)\<close> with \<open>x\<close> below the width and \<open>y\<close> below
  the height. A loaded image has at least one pixel along each axis. The only values the
  program stores are the values it read with the lowest bit of the first one replaced, so
  they are stored as they are.
\<close>

datatype error = IndexError | ValueError

type_synonym message = "nat list"
type_synonym pixel = "int list"
type_synonym coord = "nat \<times> nat"

record image =
  image_size :: "nat \<times> nat"
  image_data :: "coord \<Rightarrow> pixel"

text \<open>
  Every pixel access of a run is recorded, in order, next to the outcome of the run: a
  read \<open>pixels[x, y]\<close> is \<open>Get (x, y)\<close>, a write \<open>pixels[x, y] = v\<close> is
  \<open>Put (x, y) v\<close>. An access outside \<open>image.size\<close> raises \<open>IndexError\<close>.
\<close>

datatype access = Get coord | Put coord pixel

type_synonym 'a run = "access list \<times> (error + 'a)"

definition ret :: "'a \<Rightarrow> 'a run" where
  "ret x = ([], Inr x)"

definition raise :: "error \<Rightarrow> 'a run" where
  "raise e = ([], Inl e)"

definition lift :: "error + 'a \<Rightarrow> 'a run" where
  "lift r = ([], r)"

definition bind :: "'a run \<Rightarrow> ('a \<Rightarrow> 'b run) \<Rightarrow> 'b run" where
  "bind m f =
     (case m of
        (tr, Inl e) \<Rightarrow> (tr, Inl e)
      | (tr, Inr x) \<Rightarrow> (case f x of (tr', r) \<Rightarrow> (tr @ tr', r)))"

definition in_bounds :: "image \<Rightarrow> coord \<Rightarrow> bool" where
  "in_bounds im c = (fst c < fst (image_size im) \<and> snd c < snd (image_size im))"

definition getpixel :: "image \<Rightarrow> coord \<Rightarrow> pixel run" where
  "getpixel im c = ([Get c], if in_bounds im c then Inr (image_data im c) else Inl IndexError)"

definition putpixel :: "image \<Rightarrow> coord \<Rightarrow> pixel \<Rightarrow> image run" where
  "putpixel im c v =
     ([Put c v],
      if in_bounds im c then Inr (im\<lparr>image_data := (image_data im)(c := v)\<rparr>)
      else Inl IndexError)"

section \<open>Text codec\<close>

definition delimeter :: string where
  "delimeter = ''1111111111111110''"

definition digit_char :: "nat \<Rightarrow> char" where
  "digit_char d = char_of (48 + d)"

text \<open>\<open>format(n, 'b')\<close>: the binary digits of \<open>n\<close>, most significant first.\<close>

fun bin_digits :: "nat \<Rightarrow> string" where
  "bin_digits n = (if n < 2 then [digit_char n] else bin_digits (n div 2) @ [digit_char (n mod 2)])"

declare bin_digits.simps [simp del]

text \<open>\<open>format(n, '08b')\<close>: padded with zeros on the left to a width of at least 8.\<close>

definition format_08b :: "nat \<Rightarrow> string" where
  "format_08b n = replicate (8 - length (bin_digits n)) CHR ''0'' @ bin_digits n"

fun text_to_binary_loop :: "message \<Rightarrow> string \<Rightarrow> string" where
  "text_to_binary_loop [] binary_string = binary_string"
| "text_to_binary_loop (char # rest) binary_string =
     text_to_binary_loop rest (binary_string @ format_08b char)"

definition text_to_binary :: "message \<Rightarrow> string" where
  "text_to_binary message = text_to_binary_loop message []"

text \<open>
  \<open>int(c)\<close> of a one-character string: the value of a decimal digit, \<open>ValueError\<close>
  otherwise.
\<close>

definition int_of_digit :: "char \<Rightarrow> error + int" where
  "int_of_digit c =
     (let n = (of_char c :: nat)
      in if 48 \<le> n \<and> n \<le> 57 then Inr (int n - 48) else Inl ValueError)"

text \<open>
  \<open>int(byte, 2)\<close> on a non-empty string of the digits \<open>0\<close> and \<open>1\<close>: its value, most
  significant digit first. The empty string raises \<open>ValueError\<close>. Every string with
  another character is given \<open>ValueError\<close> here, although Python also accepts a sign, a
  \<open>0b\<close> prefix, underscores between digits and surrounding whitespace: the program
  builds \<open>byte\<close> from the digits \<open>0\<close> and \<open>1\<close> only, and every statement below about
  \<open>binary_to_text\<close> is about such strings (\<open>list_all is_bit\<close>).
\<close>

definition is_bit :: "char \<Rightarrow> bool" where
  "is_bit c = (c = CHR ''0'' \<or> c = CHR ''1'')"

definition bit_val :: "char \<Rightarrow> nat" where
  "bit_val c = (if c = CHR ''1'' then 1 else 0)"

definition int_base2 :: "string \<Rightarrow> error + nat" where
  "int_base2 byte =
     (if byte = [] \<or> \<not> list_all is_bit byte then Inl ValueError
      else Inr (foldl (\<lambda>acc c. 2 * acc + bit_val c) 0 byte))"

text \<open>\<open>chr(n)\<close>: the character of code point \<open>n\<close>, \<open>ValueError\<close> from 0x110000 on.\<close>

definition chr :: "nat \<Rightarrow> error + nat" where
  "chr n = (if n < 1114112 then Inr n else Inl ValueError)"

text \<open>\<open>range(0, n, 8)\<close>\<close>

definition range_step8 :: "nat \<Rightarrow> nat list" where
  "range_step8 n = map (\<lambda>j. 8 * j) [0..<(n + 7) div 8]"

text \<open>The slice \<open>s[i:j]\<close> for \<open>0 \<le> i \<le> j\<close>.\<close>

definition slice :: "'a list \<Rightarrow> nat \<Rightarrow> nat \<Rightarrow> 'a list" where
  "slice s i j = take (j - i) (drop i s)"

fun binary_to_text_loop :: "string \<Rightarrow> nat list \<Rightarrow> message \<Rightarrow> error + message" where
  "binary_to_text_loop binary_message [] text = Inr text"
| "binary_to_text_loop binary_message (i # rest) text =
     (case int_base2 (slice binary_message i (i + 8)) of
        Inl e \<Rightarrow> Inl e
      | Inr n \<Rightarrow>
          (case chr n of
             Inl e \<Rightarrow> Inl e
           | Inr c \<Rightarrow> binary_to_text_loop binary_message rest (text @ [c])))"

definition binary_to_text :: "string \<Rightarrow> error + message" where
  "binary_to_text binary_message =
     binary_to_text_loop binary_message (range_step8 (length binary_message)) []"

section \<open>Embedding\<close>

text \<open>\<open>pixel[0] = (pixel[0] & ~1) | bit_to_write\<close> on the list copy of the pixel.\<close>

definition set_lsb :: "pixel \<Rightarrow> int \<Rightarrow> pixel run" where
  "set_lsb pixel bit_to_write =
     (case pixel of
        [] \<Rightarrow> raise IndexError
      | c0 # cs \<Rightarrow> ret (((c0 AND NOT 1) OR bit_to_write) # cs))"

text \<open>The body of the inner loop of \<open>hide_message\<close>, under \<open>message_index < len(binary_message)\<close>.\<close>

definition hide_body :: "string \<Rightarrow> nat \<Rightarrow> nat \<Rightarrow> image \<times> nat \<Rightarrow> (image \<times> nat) run" where
  "hide_body binary_message row column st =
     (case st of (im, message_index) \<Rightarrow>
        bind (getpixel im (row, column)) (\<lambda>pixel.
        bind (lift (int_of_digit (binary_message ! message_index))) (\<lambda>bit_to_write.
        bind (set_lsb pixel bit_to_write) (\<lambda>pixel'.
        bind (putpixel im (column, row) pixel') (\<lambda>im'.
        ret (im', message_index + 1))))))"

text \<open>
  The inner loop over \<open>column\<close>; the flag says whether it left by \<open>break\<close>. The outer
  loop over \<open>row\<close> goes on after an inner loop that ran to its end and stops after one
  that broke.
\<close>

fun hide_columns ::
  "string \<Rightarrow> nat \<Rightarrow> nat list \<Rightarrow> image \<times> nat \<Rightarrow> ((image \<times> nat) \<times> bool) run" where
  "hide_columns binary_message row [] st = ret (st, False)"
| "hide_columns binary_message row (column # rest) st =
     (if snd st < length binary_message
      then bind (hide_body binary_message row column st) (hide_columns binary_message row rest)
      else ret (st, True))"

fun hide_rows :: "string \<Rightarrow> nat \<Rightarrow> nat list \<Rightarrow> image \<times> nat \<Rightarrow> (image \<times> nat) run" where
  "hide_rows binary_message h [] st = ret st"
| "hide_rows binary_message h (row # rest) st =
     bind (hide_columns binary_message row [0..<h] st) (\<lambda>r.
       if snd r then ret (fst r) else hide_rows binary_message h rest (fst r))"

text \<open>
  \<open>hide_message\<close>: the run yields the image handed to \<open>image.save\<close>, together with
  the final \<open>message_index\<close>.
\<close>

definition hide_message :: "image \<Rightarrow> message \<Rightarrow> (image \<times> nat) run" where
  "hide_message im message =
     (let binary_message = text_to_binary message @ delimeter
      in hide_rows binary_message (snd (image_size im)) [0..<fst (image_size im)] (im, 0))"

section \<open>Extraction\<close>

text \<open>\<open>str(n)\<close> for an integer: its decimal digits, after a minus sign when negative.\<close>

fun dec_digits :: "nat \<Rightarrow> string" where
  "dec_digits n = (if n < 10 then [digit_char n] else dec_digits (n div 10) @ [digit_char (n mod 10)])"

declare dec_digits.simps [simp del]

definition str_int :: "int \<Rightarrow> string" where
  "str_int i = (if i < 0 then CHR ''-'' # dec_digits (nat (- i)) else dec_digits (nat i))"

definition endswith :: "string \<Rightarrow> string \<Rightarrow> bool" where
  "endswith s suffix =
     (length suffix \<le> length s \<and> drop (length s - length suffix) s = suffix)"

text \<open>\<open>pixel[0]\<close>\<close>

definition first_channel :: "pixel \<Rightarrow> int run" where
  "first_channel pixel = (case pixel of [] \<Rightarrow> raise IndexError | c0 # cs \<Rightarrow> ret c0)"

text \<open>
  A loop of \<open>reveal_message\<close> either goes on with the bit buffer or has executed
  \<open>return\<close> with the decoded message.
\<close>

datatype flow = Continue string | Return message

definition reveal_body :: "image \<Rightarrow> nat \<Rightarrow> nat \<Rightarrow> string \<Rightarrow> flow run" where
  "reveal_body im row column binary_message =
     bind (getpixel im (column, row)) (\<lambda>pixel.
     bind (first_channel pixel) (\<lambda>c0.
       let least_significant_bit = c0 AND 1;
           binary_message' = binary_message @ str_int least_significant_bit
       in if endswith binary_message' delimeter
          then bind (lift (binary_to_text (take (length binary_message' - 16) binary_message')))
                 (\<lambda>t. ret (Return t))
          else ret (Continue binary_message')))"

fun reveal_columns :: "image \<Rightarrow> nat \<Rightarrow> nat list \<Rightarrow> string \<Rightarrow> flow run" where
  "reveal_columns im row [] binary_message = ret (Continue binary_message)"
| "reveal_columns im row (column # rest) binary_message =
     bind (reveal_body im row column binary_message) (\<lambda>r.
       case r of
         Return t \<Rightarrow> ret (Return t)
       | Continue binary_message' \<Rightarrow> reveal_columns im row rest binary_message')"

fun reveal_rows :: "image \<Rightarrow> nat \<Rightarrow> nat list \<Rightarrow> string \<Rightarrow> flow run" where
  "reveal_rows im h [] binary_message = ret (Continue binary_message)"
| "reveal_rows im h (row # rest) binary_message =
     bind (reveal_columns im row [0..<h] binary_message) (\<lambda>r.
       case r of
         Return t \<Rightarrow> ret (Return t)
       | Continue binary_message' \<Rightarrow> reveal_rows im h rest binary_message')"

definition ERROR :: message where
  "ERROR = map of_char ''ERROR''"

definition reveal_message :: "image \<Rightarrow> message run" where
  "reveal_message im =
     bind (reveal_rows im (snd (image_size im)) [0..<fst (image_size im)] [])
       (\<lambda>r. case r of Return t \<Rightarrow> ret t | Continue binary_message \<Rightarrow> ret ERROR)"

section \<open>Notions used in the statements\<close>

text \<open>
  The pairs \<open>(row, column)\<close> in the order in which the two nested \<open>for\<close> loops over
  \<open>range(size[0])\<close> and \<open>range(size[1])\<close> produce them.
\<close>

definition scan_order :: "nat \<Rightarrow> nat \<Rightarrow> coord list" where
  "scan_order w h = concat (map (\<lambda>row. map (\<lambda>column. (row, column)) [0..<h]) [0..<w])"

text \<open>The coordinates read, and the coordinates and pixels written, of a run, in order.\<close>

fun gets :: "access list \<Rightarrow> coord list" where
  "gets [] = []"
| "gets (Get c # tr) = c # gets tr"
| "gets (Put c v # tr) = gets tr"

fun puts :: "access list \<Rightarrow> (coord \<times> pixel) list" where
  "puts [] = []"
| "puts (Get c # tr) = puts tr"
| "puts (Put c v # tr) = (c, v) # puts tr"

text \<open>Every pixel of the grid is a tuple with a first channel.\<close>

definition multiband :: "image \<Rightarrow> bool" where
  "multiband im = (\<forall>c. in_bounds im c \<longrightarrow> image_data im c \<noteq> [])"

text \<open>The least significant bit of the first channel of a pixel, and its digit.\<close>

definition lsb_of :: "pixel \<Rightarrow> int" where
  "lsb_of p = (case p of [] \<Rightarrow> 0 | c0 # cs \<Rightarrow> c0 AND 1)"

definition bit_char :: "int \<Rightarrow> char" where
  "bit_char b = (if b = 0 then CHR ''0'' else CHR ''1'')"

text \<open>
  The digits \<open>reveal_message\<close> collects along a list of loop pairs: at the pair
  \<open>(row, column)\<close> it looks at the pixel at \<open>(column, row)\<close>.
\<close>

definition lsb_string :: "image \<Rightarrow> coord list \<Rightarrow> string" where
  "lsb_string im cs = map (\<lambda>c. bit_char (lsb_of (image_data im (prod.swap c)))) cs"

text \<open>
  The two nested loops of \<open>hide_message\<close> as one loop over a list of pairs
  \<open>(row, column)\<close>, and likewise for \<open>reveal_message\<close>; they are shown below to be
  the nested loops on \<open>scan_order\<close>.
\<close>

fun hide_flat :: "string \<Rightarrow> coord list \<Rightarrow> image \<times> nat \<Rightarrow> (image \<times> nat) run" where
  "hide_flat binary_message [] st = ret st"
| "hide_flat binary_message (c # rest) st =
     (if snd st < length binary_message
      then bind (hide_body binary_message (fst c) (snd c) st) (hide_flat binary_message rest)
      else ret st)"

definition go_on :: "(string \<Rightarrow> flow run) \<Rightarrow> flow \<Rightarrow> flow run" where
  "go_on k r = (case r of Return t \<Rightarrow> ret (Return t) | Continue b \<Rightarrow> k b)"

fun reveal_flat :: "image \<Rightarrow> coord list \<Rightarrow> string \<Rightarrow> flow run" where
  "reveal_flat im [] binary_message = ret (Continue binary_message)"
| "reveal_flat im (c # rest) binary_message =
     bind (reveal_body im (fst c) (snd c) binary_message) (go_on (reveal_flat im rest))"

text \<open>Hiding a message in an image and revealing from the image that was saved.\<close>

definition roundtrip :: "image \<Rightarrow> message \<Rightarrow> message run" where
  "roundtrip im message = bind (hide_message im message) (\<lambda>r. reveal_message (fst r))"

text \<open>
  No 16 characters equal to the sentinel end before the end of the string: the first
  window of \<open>binary_message\<close> that \<open>endswith\<close> can match is its last one.
\<close>

definition sentinel_free :: "string \<Rightarrow> bool" where
  "sentinel_free bm = list_all (\<lambda>m. \<not> endswith (take m bm) delimeter) [0..<length bm]"

text \<open>
  At the loop pair \<open>c = (row, column)\<close>, the pixel \<open>reveal_message\<close> looks at lies in
  the grid and has a first channel.
\<close>

definition readable :: "image \<Rightarrow> coord \<Rightarrow> bool" where
  "readable im c = (in_bounds im (prod.swap c) \<and> image_data im (prod.swap c) \<noteq> [])"

text \<open>
  The effect on the image of the body of hide's loop when nothing raises: the pixel read
  at the pair \<open>c\<close>, with the digit \<open>d\<close> in the lowest bit of its first channel, is
  stored at the swapped coordinate. \<open>embed\<close> repeats it along a list of pairs while
  digits remain.
\<close>

definition embed_pixel :: "pixel \<Rightarrow> char \<Rightarrow> pixel" where
  "embed_pixel p d = (case p of [] \<Rightarrow> [] | c0 # cs \<Rightarrow> ((c0 AND NOT 1) OR int (bit_val d)) # cs)"

definition write_bit :: "image \<Rightarrow> coord \<Rightarrow> char \<Rightarrow> image" where
  "write_bit im c d = im\<lparr>image_data := (image_data im)(prod.swap c := embed_pixel (image_data im c) d)\<rparr>"

fun embed :: "string \<Rightarrow> coord list \<Rightarrow> image \<times> nat \<Rightarrow> image \<times> nat" where
  "embed bm [] st = st"
| "embed bm (c # rest) st =
     (if snd st < length bm
      then embed bm rest (write_bit (fst st) c (bm ! snd st), snd st + 1)
      else st)"

text \<open>How the two ways of leaving the loops of \<open>reveal_message\<close> end the call.\<close>

definition ret_flow :: "error + message \<Rightarrow> error + flow" where
  "ret_flow r = (case r of Inl e \<Rightarrow> Inl e | Inr t \<Rightarrow> Inr (Return t))"

definition finish :: "flow \<Rightarrow> message run" where
  "finish r = (case r of Return t \<Rightarrow> ret t | Continue b \<Rightarrow> ret ERROR)"

text \<open>
  A log \<open>tr\<close> of hide's loop over the pairs \<open>cs\<close>, entered with \<open>message_index = idx\<close>:
  the reads are at the first pairs of \<open>cs\<close>, in order; the writes are at the swapped
  first pairs, in order, and the \<open>k\<close>-th pixel written carries digit \<open>idx + k\<close>.
\<close>

definition logged :: "string \<Rightarrow> nat \<Rightarrow> coord list \<Rightarrow> access list \<Rightarrow> bool" where
  "logged bm idx cs tr =
     (length (gets tr) \<le> length cs \<and> gets tr = take (length (gets tr)) cs
      \<and> length (puts tr) \<le> length cs
      \<and> map fst (puts tr) = map prod.swap (take (length (puts tr)) cs)
      \<and> (\<forall>k < length (puts tr). lsb_of (snd (puts tr ! k)) = int (bit_val (bm ! (idx + k)))))"

text \<open>
  On a grid of \<open>w\<close> by \<open>h\<close> pixels with \<open>w \<noteq> h\<close>, the number of the first step of
  the scan whose swapped pair is not a coordinate of the grid: step \<open>w\<close>, the pair
  \<open>(0, w)\<close>, when \<open>w < h\<close>, and step \<open>h * h\<close>, the pair \<open>(h, 0)\<close>, when \<open>h < w\<close>.
\<close>

definition first_bad :: "nat \<Rightarrow> nat \<Rightarrow> nat" where
  "first_bad w h = (if w < h then w else h * h)"

subsection \<open>Concrete images\<close>

text \<open>An RGB image with every pixel \<open>(0, 0, 0)\<close>.\<close>

definition blank :: "nat \<Rightarrow> nat \<Rightarrow> image" where
  "blank w h = \<lparr>image_size = (w, h), image_data = (\<lambda>c. [0, 0, 0])\<rparr>"

text \<open>An RGB image whose pixel at \<open>(x, y)\<close> is \<open>(0, x, y)\<close>.\<close>

definition gradient :: "nat \<Rightarrow> nat \<Rightarrow> image" where
  "gradient w h = \<lparr>image_size = (w, h), image_data = (\<lambda>c. [0, int (fst c), int (snd c)])\<rparr>"

text \<open>
  A 6 by 6 RGB image whose red lowest bits, read along \<open>(0,0), (1,0), \<dots>, (5,0), (0,1), \<dots>\<close>,
  are fifteen ones, a zero, fifteen ones, a zero, and zeros after that: the digits of
  the two characters chr(255) chr(254) followed by the sentinel.
\<close>

definition collide :: image where
  "collide = \<lparr>image_size = (6, 6),
     image_data = (\<lambda>c. [if fst c + 6 * snd c \<in> {15, 31} \<or> 32 \<le> fst c + 6 * snd c then 0 else 1, 0, 0])\<rparr>"

section \<open>Specification-side notions\<close>

text \<open>
  The 8-bit unsigned binary representation of a code value, most significant bit first:
  the digit at position \<open>i\<close> from the left is the coefficient of \<open>2 ^ (7 - i)\<close>.
\<close>

definition byte8 :: "nat \<Rightarrow> string" where
  "byte8 n = map (\<lambda>i. if odd (n div 2 ^ (7 - i)) then CHR ''1'' else CHR ''0'') [0..<8]"

text \<open>The same digits for any width, built from the least significant end.\<close>

primrec bits_msb :: "nat \<Rightarrow> nat \<Rightarrow> string" where
  "bits_msb 0 n = []"
| "bits_msb (Suc k) n = bits_msb k (n div 2) @ [digit_char (n mod 2)]"

text \<open>
  A run of bits read as an unsigned integer, most significant bit first: the bit at
  position \<open>i\<close> of a run of length \<open>n\<close> weighs \<open>2 ^ (n - 1 - i)\<close>.
\<close>

definition unsigned_value :: "string \<Rightarrow> nat" where
  "unsigned_value bits = (\<Sum>i<length bits. bit_val (bits ! i) * 2 ^ (length bits - 1 - i))"

section \<open>Properties of the encoder\<close>

lemma digit_char_0 [simp]: "digit_char 0 = CHR ''0''"
  by code_simp

lemma digit_char_1 [simp]: "digit_char (Suc 0) = CHR ''1''"
  by code_simp

lemma digit_char_mod2: "digit_char (m mod 2) = (if odd m then CHR ''1'' else CHR ''0'')"
  by (cases "even m") (simp_all add: odd_iff_mod_2_eq_one)

lemma length_bits_msb [simp]: "length (bits_msb k n) = k"
  by (induction k arbitrary: n) auto

lemma bits_msb_zero: "bits_msb k 0 = replicate k CHR ''0''"
  by (induction k) (auto simp: replicate_append_same)

lemma length_bin_digits: "n < 2 ^ Suc k \<Longrightarrow> length (bin_digits n) \<le> Suc k"
proof (induction k arbitrary: n)
  case 0
  then show ?case by (simp add: bin_digits.simps)
next
  case (Suc k)
  show ?case
  proof (cases "n < 2")
    case True
    then show ?thesis by (simp add: bin_digits.simps)
  next
    case False
    from Suc.prems have "n div 2 < 2 ^ Suc k" by simp
    from Suc.IH [OF this] False show ?thesis
      by (subst bin_digits.simps) simp
  qed
qed

lemma pad_bin_digits:
  "n < 2 ^ Suc k \<Longrightarrow>
   replicate (Suc k - length (bin_digits n)) CHR ''0'' @ bin_digits n = bits_msb (Suc k) n"
proof (induction k arbitrary: n)
  case 0
  then show ?case by (simp add: bin_digits.simps)
next
  case (Suc k)
  show ?case
  proof (cases "n < 2")
    case True
    then have "bin_digits n = [digit_char n]" by (simp add: bin_digits.simps)
    moreover from True have "n div 2 = 0" "n mod 2 = n" by simp_all
    ultimately show ?thesis
      by (simp add: bits_msb_zero replicate_append_same)
  next
    case False
    from Suc.prems have lt: "n div 2 < 2 ^ Suc k" by simp
    from False have bd: "bin_digits n = bin_digits (n div 2) @ [digit_char (n mod 2)]"
      by (subst bin_digits.simps) simp
    from length_bin_digits [OF lt]
    have "Suc (Suc k) - length (bin_digits n) = Suc k - length (bin_digits (n div 2))"
      by (simp add: bd)
    with Suc.IH [OF lt] show ?thesis
      by (simp add: bd)
  qed
qed

lemma format_08b_bits: "n \<le> 255 \<Longrightarrow> format_08b n = bits_msb 8 n"
  using pad_bin_digits [of n 7] by (simp add: format_08b_def)

lemma upt_8: "[0..<8] = [0, 1, 2, 3, 4, 5, 6, 7 :: nat]"
  by code_simp

lemma bits_msb_Suc8:
  "bits_msb (Suc (Suc (Suc (Suc (Suc (Suc (Suc (Suc 0)))))))) n =
     map (\<lambda>m. if odd m then CHR ''1'' else CHR ''0'')
       [n div 128, n div 64, n div 32, n div 16, n div 8, n div 4, n div 2, n]"
  by (simp add: digit_char_mod2 div_mult2_eq [symmetric])

lemma bits_msb_8: "bits_msb 8 n = byte8 n"
proof -
  have "(8::nat) = Suc (Suc (Suc (Suc (Suc (Suc (Suc (Suc 0)))))))" by simp
  then have "bits_msb 8 n = bits_msb (Suc (Suc (Suc (Suc (Suc (Suc (Suc (Suc 0)))))))) n"
    by (rule arg_cong)
  also have "\<dots> = byte8 n"
    unfolding bits_msb_Suc8 by (simp add: byte8_def upt_8)
  finally show ?thesis .
qed

lemma format_08b_byte8: "n \<le> 255 \<Longrightarrow> format_08b n = byte8 n"
  by (simp add: format_08b_bits bits_msb_8)

lemma length_byte8 [simp]: "length (byte8 n) = 8"
  by (simp add: byte8_def)

lemma text_to_binary_loop_append:
  "text_to_binary_loop message acc = acc @ concat (map format_08b message)"
  by (induction message arbitrary: acc) simp_all

lemma text_to_binary_concat: "text_to_binary message = concat (map format_08b message)"
  by (simp add: text_to_binary_def text_to_binary_loop_append)

lemma length_concat_byte8: "length (concat (map byte8 message)) = 8 * length message"
  by (induction message) simp_all

text \<open>
  C7. For a message whose characters all have code values in [0,255], \<open>text_to_binary\<close>
  yields, character by character and in order, the 8-bit unsigned binary representation of
  each code value, with nothing in between; its length is eight times the length of the
  message. The result is a function of the message alone.
\<close>

theorem text_to_binary_bytes:
  assumes "\<forall>c \<in> set message. c \<le> 255"
  shows "text_to_binary message = concat (map byte8 message)
         \<and> length (text_to_binary message) = 8 * length message"
proof -
  from assms have eq: "map format_08b message = map byte8 message"
    by (simp add: format_08b_byte8)
  show ?thesis
    unfolding text_to_binary_concat eq by (simp add: length_concat_byte8)
qed

theorem text_to_binary_bytes_witness:
  "(72::nat) \<le> 255 \<and> (105::nat) \<le> 255
   \<and> text_to_binary [72, 105] = ''0100100001101001''
   \<and> length (text_to_binary [72, 105]) = 16"
  using text_to_binary_bytes [of "[72, 105]"]
  by (simp add: byte8_def upt_8)

section \<open>Properties of the decoder\<close>

lemma unsigned_value_Nil [simp]: "unsigned_value [] = 0"
  by (simp add: unsigned_value_def)

lemma unsigned_value_snoc [simp]:
  "unsigned_value (bits @ [c]) = 2 * unsigned_value bits + bit_val c"
proof -
  have "(\<Sum>i<length bits. bit_val ((bits @ [c]) ! i) * 2 ^ (length bits - i))
        = (\<Sum>i<length bits. 2 * (bit_val (bits ! i) * 2 ^ (length bits - 1 - i)))"
  proof (rule sum.cong)
    fix i assume "i \<in> {..<length bits}"
    then have i: "i < length bits" by simp
    then have "length bits - i = Suc (length bits - 1 - i)" by simp
    with i show "bit_val ((bits @ [c]) ! i) * 2 ^ (length bits - i)
                 = 2 * (bit_val (bits ! i) * 2 ^ (length bits - 1 - i))"
      by (simp add: nth_append)
  qed simp
  then show ?thesis
    by (simp add: unsigned_value_def sum_distrib_left)
qed

lemma foldl_unsigned_value:
  "foldl (\<lambda>acc c. 2 * acc + bit_val c) a bits = a * 2 ^ length bits + unsigned_value bits"
  by (induction bits rule: rev_induct) (simp_all add: algebra_simps)

lemma bit_val_le: "bit_val c \<le> 1"
  by (simp add: bit_val_def)

lemma unsigned_value_less: "unsigned_value bits < 2 ^ length bits"
proof (induction bits rule: rev_induct)
  case Nil
  show ?case by simp
next
  case (snoc c bits)
  with bit_val_le [of c] show ?case by simp
qed

lemma int_base2_bits:
  "bits \<noteq> [] \<Longrightarrow> list_all is_bit bits \<Longrightarrow> int_base2 bits = Inr (unsigned_value bits)"
  by (simp add: int_base2_def foldl_unsigned_value)

lemma list_all_slice: "list_all P s \<Longrightarrow> list_all P (slice s i j)"
  by (auto simp: slice_def list_all_iff dest: in_set_takeD in_set_dropD)

lemma slice_nonempty: "i < length s \<Longrightarrow> slice s i (i + 8) \<noteq> []"
  by (simp add: slice_def)

lemma unsigned_value_slice_less: "unsigned_value (slice s i (i + 8)) < 256"
proof -
  have "length (slice s i (i + 8)) \<le> 8" by (simp add: slice_def)
  then have "(2::nat) ^ length (slice s i (i + 8)) \<le> 2 ^ 8"
    by (intro power_increasing) simp_all
  with unsigned_value_less [of "slice s i (i + 8)"] show ?thesis by simp
qed

lemma binary_to_text_loop_map:
  assumes "list_all is_bit bm" and "\<forall>i \<in> set idxs. i < length bm"
  shows "binary_to_text_loop bm idxs acc
         = Inr (acc @ map (\<lambda>i. unsigned_value (slice bm i (i + 8))) idxs)"
  using assms(2)
proof (induction idxs arbitrary: acc)
  case Nil
  show ?case by simp
next
  case (Cons i idxs)
  then have i: "i < length bm" by simp
  have b: "int_base2 (slice bm i (i + 8)) = Inr (unsigned_value (slice bm i (i + 8)))"
    by (rule int_base2_bits [OF slice_nonempty [OF i] list_all_slice [OF assms(1)]])
  have c: "chr (unsigned_value (slice bm i (i + 8))) = Inr (unsigned_value (slice bm i (i + 8)))"
    using unsigned_value_slice_less [of bm i] by (simp add: chr_def)
  from Cons show ?case by (simp add: b c)
qed

lemma range_step8_less: "i \<in> set (range_step8 n) \<Longrightarrow> i < n"
  by (auto simp: range_step8_def)

lemma binary_to_text_map:
  assumes "list_all is_bit bits"
  shows "binary_to_text bits
         = Inr (map (\<lambda>j. unsigned_value (take 8 (drop (8 * j) bits))) [0..<(length bits + 7) div 8])"
proof -
  have "\<forall>i \<in> set (range_step8 (length bits)). i < length bits"
    by (simp add: range_step8_less)
  from binary_to_text_loop_map [OF assms this, of "[]"] show ?thesis
    by (simp add: binary_to_text_def range_step8_def slice_def comp_def)
qed

text \<open>
  C6, as amended. For every string of bits, \<open>binary_to_text\<close> cuts it into consecutive
  groups of 8 from the left, reads each group as an unsigned integer and yields the
  characters of these code values in order. A last group of fewer than 8 bits is decoded
  like the others (as the unsigned value of the bits it has), not dropped: the result has
  \<open>(len + 7) div 8\<close> characters, which is \<open>len div 8\<close> when \<open>len\<close> is a multiple of 8.
\<close>

theorem binary_to_text_groups:
  assumes "list_all is_bit bits"
  shows "binary_to_text bits
         = Inr (map (\<lambda>j. unsigned_value (take 8 (drop (8 * j) bits))) [0..<(length bits + 7) div 8])"
  using assms by (rule binary_to_text_map)

lemma unsigned_value_foldl: "unsigned_value bits = foldl (\<lambda>acc c. 2 * acc + bit_val c) 0 bits"
  by (simp add: foldl_unsigned_value)

text \<open>
  C6 as stated fails: on the three bits \<open>101\<close> the loop runs once (\<open>range(0, 3, 8)\<close> is
  \<open>[0]\<close>), the slice is the whole string and the result is the one character
  \<open>chr(5)\<close>, where floor division would give no character.
\<close>

theorem binary_to_text_partial_group:
  "binary_to_text ''101'' = Inr [5] \<and> length ''101'' div 8 = 0"
  by (simp add: binary_to_text_def range_step8_def slice_def int_base2_def is_bit_def bit_val_def chr_def)

theorem binary_to_text_groups_witness:
  "list_all is_bit ''0100100001101001101''
   \<and> binary_to_text ''0100100001101001101'' = Inr [72, 105, 5]"
proof -
  have h: "list_all is_bit ''0100100001101001101''"
    by (simp add: is_bit_def)
  have u: "[0..<3] = [0, 1, 2 :: nat]"
    by code_simp
  from binary_to_text_groups [OF h] h show ?thesis
    by (simp add: u unsigned_value_foldl bit_val_def)
qed

section \<open>Properties of the pixel transforms\<close>

subsection \<open>Runs and the scan order\<close>

lemma bind_Inl [simp]: "bind (tr, Inl e) f = (tr, Inl e)"
  by (simp add: bind_def)

lemma bind_Inr [simp]: "bind (tr, Inr x) f = (tr @ fst (f x), snd (f x))"
  by (simp add: bind_def split: prod.splits)

lemma bind_ret [simp]: "bind (ret x) f = f x"
  by (simp add: ret_def)

lemma bind_raise [simp]: "bind (raise e) f = raise e"
  by (simp add: raise_def)

lemma bind_ret_right [simp]: "bind m ret = m"
proof (cases m)
  case (Pair tr r)
  then show ?thesis by (cases r) (simp_all add: ret_def)
qed

lemma bind_assoc: "bind (bind m f) g = bind m (\<lambda>x. bind (f x) g)"
proof (cases m)
  case (Pair tr r)
  show ?thesis
  proof (cases r)
    case (Inl e)
    with Pair show ?thesis by simp
  next
    case (Inr x)
    obtain tr1 r1 where f: "f x = (tr1, r1)" by (cases "f x")
    show ?thesis
      using Pair Inr f by (cases r1) simp_all
  qed
qed

lemma bind_cong_ok:
  assumes "\<And>x. snd m = Inr x \<Longrightarrow> f x = g x"
  shows "bind m f = bind m g"
proof (cases m)
  case (Pair tr r)
  with assms show ?thesis by (cases r) simp_all
qed

lemma fst_bind_Inl: "snd m = Inl e \<Longrightarrow> bind m f = m"
  by (cases m) simp

lemma snd_bind_Inr: "snd m = Inr x \<Longrightarrow> bind m f = (fst m @ fst (f x), snd (f x))"
  by (cases m) simp

lemma scan_order_Suc:
  "scan_order (Suc w) h = scan_order w h @ map (Pair w) [0..<h]"
  by (simp add: scan_order_def)

lemma length_scan_order [simp]: "length (scan_order w h) = w * h"
  by (induction w) (simp_all add: scan_order_Suc, simp add: scan_order_def)

lemma set_scan_order: "set (scan_order w h) = {c. fst c < w \<and> snd c < h}"
  by (auto simp: scan_order_def)

lemma distinct_scan_order: "distinct (scan_order w h)"
  by (induction w) (auto simp: scan_order_Suc distinct_map inj_on_def set_scan_order, simp add: scan_order_def)

lemma div_mod_block:
  fixes k w h :: nat
  assumes "w * h \<le> k" and "k < w * h + h"
  shows "k div h = w" and "k mod h = k - w * h"
proof -
  from assms have h: "0 < h" by (cases h) simp_all
  have k: "k = (k - w * h) + w * h" using assms by simp
  have lt: "k - w * h < h" using assms by simp
  have "k div h = ((k - w * h) + w * h) div h" using k by simp
  also have "\<dots> = w" using lt h by simp
  finally show "k div h = w" .
  have "k mod h = ((k - w * h) + w * h) mod h" using k by simp
  also have "\<dots> = k - w * h" using lt by simp
  finally show "k mod h = k - w * h" .
qed

lemma nth_scan_order: "k < w * h \<Longrightarrow> scan_order w h ! k = (k div h, k mod h)"
proof (induction w)
  case 0
  then show ?case by simp
next
  case (Suc w)
  show ?case
  proof (cases "k < w * h")
    case True
    with Suc.IH show ?thesis by (simp add: scan_order_Suc nth_append)
  next
    case False
    then have ge: "w * h \<le> k" by simp
    from Suc.prems have lt: "k < w * h + h" by (simp add: add.commute)
    from div_mod_block [OF ge lt] ge lt show ?thesis
      by (simp add: scan_order_Suc nth_append)
  qed
qed

subsection \<open>Bits\<close>

lemma is_bit_digit_char: "d < 2 \<Longrightarrow> is_bit (digit_char d)"
  by (cases "d = 0") (auto simp: is_bit_def less_2_cases_iff)

lemma list_all_is_bit_bin_digits: "list_all is_bit (bin_digits n)"
proof (induction n rule: bin_digits.induct)
  case (1 n)
  show ?case
  proof (cases "n < 2")
    case True
    then show ?thesis by (subst bin_digits.simps) (simp add: is_bit_digit_char)
  next
    case False
    with 1 show ?thesis by (subst bin_digits.simps) (simp add: is_bit_digit_char)
  qed
qed

lemma list_all_replicate: "P x \<Longrightarrow> list_all P (replicate k x)"
  by (induction k) simp_all

lemma list_all_is_bit_format: "list_all is_bit (format_08b n)"
  unfolding format_08b_def
  by (simp add: list_all_replicate list_all_is_bit_bin_digits is_bit_def)

lemma list_all_is_bit_text: "list_all is_bit (text_to_binary message)"
  by (induction message) (simp_all add: text_to_binary_concat list_all_is_bit_format)

lemma list_all_is_bit_delimeter: "list_all is_bit delimeter"
  by (simp add: delimeter_def is_bit_def)

lemma int_of_digit_bit: "is_bit c \<Longrightarrow> int_of_digit c = Inr (int (bit_val c))"
  by (auto simp: is_bit_def int_of_digit_def bit_val_def)

lemma and_not_or_lsb: "b = 0 \<or> b = 1 \<Longrightarrow> ((x AND NOT 1) OR b) AND 1 = b" for x b :: int
  by (auto simp: bit_eq_iff bit_simps)

lemma and_one_cases: "x AND 1 = 0 \<or> x AND 1 = 1" for x :: int
  by (simp add: and_one_eq) presburger

lemma str_int_0: "str_int 0 = ''0''"
  by (simp add: str_int_def dec_digits.simps)

lemma str_int_1: "str_int 1 = ''1''"
  by (simp add: str_int_def dec_digits.simps)

lemma str_int_lsb: "str_int (x AND 1) = [bit_char (x AND 1)]"
  using and_one_cases [of x] by (auto simp: str_int_0 str_int_1 bit_char_def)

lemma hide_flat_done: "\<not> snd st < length bm \<Longrightarrow> hide_flat bm cs st = ret st"
  by (cases cs) simp_all

lemma hide_flat_append:
  "hide_flat bm (a @ b) st = bind (hide_flat bm a st) (hide_flat bm b)"
proof (induction a arbitrary: st)
  case Nil
  show ?case by simp
next
  case (Cons c a)
  show ?case
  proof (cases "snd st < length bm")
    case True
    have "hide_flat bm (a @ b) = (\<lambda>x. bind (hide_flat bm a x) (hide_flat bm b))"
      by (rule ext) (rule Cons.IH)
    with True show ?thesis by (simp add: bind_assoc)
  next
    case False
    then show ?thesis by (simp add: hide_flat_done)
  qed
qed

subsection \<open>The loops of hide_message as one loop\<close>

lemma hide_body_unfold:
  "hide_body bm row column (im, idx) =
     (if \<not> in_bounds im (row, column) then ([Get (row, column)], Inl IndexError)
      else case int_of_digit (bm ! idx) of
        Inl e \<Rightarrow> ([Get (row, column)], Inl e)
      | Inr b \<Rightarrow>
          (case image_data im (row, column) of
             [] \<Rightarrow> ([Get (row, column)], Inl IndexError)
           | c0 # cs \<Rightarrow>
               ([Get (row, column), Put (column, row) (((c0 AND NOT 1) OR b) # cs)],
                if in_bounds im (column, row)
                then Inr (im\<lparr>image_data := (image_data im)((column, row) := ((c0 AND NOT 1) OR b) # cs)\<rparr>, idx + 1)
                else Inl IndexError)))"
  by (simp add: hide_body_def getpixel_def putpixel_def lift_def set_lsb_def ret_def raise_def
      split: sum.split list.split)

lemma hide_body_index:
  "snd (hide_body bm row column st) = Inr st' \<Longrightarrow> snd st' = snd st + 1"
  by (cases st) (auto simp: hide_body_unfold split: if_splits sum.splits list.splits)

lemma hide_flat_index:
  "snd (hide_flat bm cs st) = Inr st' \<Longrightarrow>
   snd st' = (if snd st < length bm then min (snd st + length cs) (length bm) else snd st)"
proof (induction cs arbitrary: st)
  case Nil
  then show ?case by (simp add: ret_def)
next
  case (Cons c cs)
  show ?case
  proof (cases "snd st < length bm")
    case False
    with Cons.prems show ?thesis by (simp add: ret_def)
  next
    case True
    obtain tr r where hb: "hide_body bm (fst c) (snd c) st = (tr, r)"
      by (cases "hide_body bm (fst c) (snd c) st")
    show ?thesis
    proof (cases r)
      case (Inl e)
      with Cons.prems True hb show ?thesis by simp
    next
      case (Inr st1)
      with hb have "snd (hide_body bm (fst c) (snd c) st) = Inr st1" by simp
      then have i1: "snd st1 = snd st + 1" by (rule hide_body_index)
      from Cons.prems True hb Inr have "snd (hide_flat bm cs st1) = Inr st'" by simp
      from Cons.IH [OF this]
      have ih: "snd st' =
          (if snd st1 < length bm then min (snd st1 + length cs) (length bm) else snd st1)" .
      show ?thesis
      proof (cases "snd st1 < length bm")
        case True
        with ih i1 \<open>snd st < length bm\<close> show ?thesis by simp
      next
        case False
        with i1 \<open>snd st < length bm\<close> have "snd st1 = length bm" by simp
        with ih i1 False \<open>snd st < length bm\<close> show ?thesis by simp
      qed
    qed
  qed
qed

lemma hide_columns_flat:
  "hide_columns bm row cols st =
     bind (hide_flat bm (map (Pair row) cols) st)
       (\<lambda>st'. ret (st', cols \<noteq> [] \<and> length bm < snd st + length cols))"
proof (induction cols arbitrary: st)
  case Nil
  show ?case by simp
next
  case (Cons column cols)
  show ?case
  proof (cases "snd st < length bm")
    case False
    then show ?thesis by simp
  next
    case True
    have ih: "hide_columns bm row cols =
        (\<lambda>st1. bind (hide_flat bm (map (Pair row) cols) st1)
           (\<lambda>st'. ret (st', cols \<noteq> [] \<and> length bm < snd st1 + length cols)))"
      by (rule ext) (rule Cons.IH)
    have "bind (hide_body bm row column st)
            (\<lambda>st1. bind (hide_flat bm (map (Pair row) cols) st1)
               (\<lambda>st'. ret (st', cols \<noteq> [] \<and> length bm < snd st1 + length cols)))
        = bind (hide_body bm row column st)
            (\<lambda>st1. bind (hide_flat bm (map (Pair row) cols) st1)
               (\<lambda>st'. ret (st', length bm < snd st + length (column # cols))))"
    proof (rule bind_cong_ok)
      fix st1 assume "snd (hide_body bm row column st) = Inr st1"
      then have "snd st1 = snd st + 1" by (rule hide_body_index)
      with True show "bind (hide_flat bm (map (Pair row) cols) st1)
               (\<lambda>st'. ret (st', cols \<noteq> [] \<and> length bm < snd st1 + length cols))
          = bind (hide_flat bm (map (Pair row) cols) st1)
               (\<lambda>st'. ret (st', length bm < snd st + length (column # cols)))"
        by (cases cols) auto
    qed
    with True show ?thesis by (simp add: ih bind_assoc)
  qed
qed

lemma hide_rows_flat:
  "hide_rows bm h rows st =
     hide_flat bm (concat (map (\<lambda>row. map (Pair row) [0..<h]) rows)) st"
proof (induction rows arbitrary: st)
  case Nil
  show ?case by simp
next
  case (Cons row rows)
  let ?rest = "concat (map (\<lambda>row. map (Pair row) [0..<h]) rows)"
  let ?line = "map (Pair row) [0..<h]"
  have ih: "hide_rows bm h rows = hide_flat bm ?rest"
    by (rule ext) (rule Cons.IH)
  have "hide_rows bm h (row # rows) st =
      bind (hide_columns bm row [0..<h] st)
        (\<lambda>r. if snd r then ret (fst r) else hide_flat bm ?rest (fst r))"
    by (simp add: Cons.IH cong: if_cong)
  also have "\<dots> = bind (hide_flat bm ?line st)
        (\<lambda>st'. if 0 < h \<and> length bm < snd st + h then ret st' else hide_flat bm ?rest st')"
    by (simp add: hide_columns_flat bind_assoc cong: if_cong)
  also have "\<dots> = bind (hide_flat bm ?line st) (hide_flat bm ?rest)"
  proof (rule bind_cong_ok)
    fix st' assume ok: "snd (hide_flat bm ?line st) = Inr st'"
    show "(if 0 < h \<and> length bm < snd st + h then ret st' else hide_flat bm ?rest st')
          = hide_flat bm ?rest st'"
    proof (cases "0 < h \<and> length bm < snd st + h")
      case False
      then show ?thesis by (rule if_not_P)
    next
      case True
      from hide_flat_index [OF ok] True have "\<not> snd st' < length bm"
        by (simp split: if_splits)
      then have "hide_flat bm ?rest st' = ret st'" by (rule hide_flat_done)
      with if_P [OF True] show ?thesis by simp
    qed
  qed
  also have "\<dots> = hide_flat bm (?line @ ?rest) st"
    by (simp add: hide_flat_append)
  finally show ?case by simp
qed

lemma hide_message_flat:
  "hide_message im message =
     hide_flat (text_to_binary message @ delimeter)
       (scan_order (fst (image_size im)) (snd (image_size im))) (im, 0)"
  by (simp add: hide_message_def hide_rows_flat scan_order_def)

subsection \<open>The loops of reveal_message as one loop\<close>

lemma reveal_body_unfold:
  "reveal_body im row column buf =
     (if \<not> in_bounds im (column, row) then ([Get (column, row)], Inl IndexError)
      else case image_data im (column, row) of
        [] \<Rightarrow> ([Get (column, row)], Inl IndexError)
      | c0 # cs \<Rightarrow>
          ([Get (column, row)],
           if endswith (buf @ [bit_char (c0 AND 1)]) delimeter
           then ret_flow (binary_to_text (take (length buf + 1 - 16) (buf @ [bit_char (c0 AND 1)])))
           else Inr (Continue (buf @ [bit_char (c0 AND 1)]))))"
  by (simp add: reveal_body_def getpixel_def first_channel_def lift_def ret_def raise_def
      str_int_lsb ret_flow_def Let_def split: sum.split list.split)

lemma fst_reveal_body: "fst (reveal_body im row column buf) = [Get (column, row)]"
  by (simp add: reveal_body_unfold split: list.split)

lemma go_on_Return [simp]: "go_on k (Return t) = ret (Return t)"
  by (simp add: go_on_def)

lemma go_on_Continue [simp]: "go_on k (Continue b) = k b"
  by (simp add: go_on_def)

lemma go_on_bind: "go_on (\<lambda>b. bind (f b) (go_on g)) r = bind (go_on f r) (go_on g)"
  by (cases r) simp_all

lemma reveal_columns_flat:
  "reveal_columns im row cols buf = reveal_flat im (map (Pair row) cols) buf"
proof (induction cols arbitrary: buf)
  case Nil
  show ?case by simp
next
  case (Cons column cols)
  have ih: "reveal_columns im row cols = reveal_flat im (map (Pair row) cols)"
    by (rule ext) (rule Cons.IH)
  have "(\<lambda>r. case r of Return t \<Rightarrow> ret (Return t) | Continue b \<Rightarrow> reveal_columns im row cols b)
        = go_on (reveal_flat im (map (Pair row) cols))"
    by (rule ext) (simp add: go_on_def Cons.IH split: flow.split)
  then show ?case by simp
qed

lemma reveal_flat_append:
  "reveal_flat im (a @ b) buf = bind (reveal_flat im a buf) (go_on (reveal_flat im b))"
proof (induction a arbitrary: buf)
  case Nil
  show ?case by simp
next
  case (Cons c a)
  have h: "reveal_flat im (a @ b) = (\<lambda>buf. bind (reveal_flat im a buf) (go_on (reveal_flat im b)))"
    by (rule ext) (rule Cons.IH)
  have "go_on (reveal_flat im (a @ b))
      = (\<lambda>r. bind (go_on (reveal_flat im a) r) (go_on (reveal_flat im b)))"
    unfolding h by (rule ext) (rule go_on_bind)
  then show ?case by (simp add: bind_assoc)
qed

lemma reveal_rows_flat:
  "reveal_rows im h rows buf =
     reveal_flat im (concat (map (\<lambda>row. map (Pair row) [0..<h]) rows)) buf"
proof (induction rows arbitrary: buf)
  case Nil
  show ?case by simp
next
  case (Cons row rows)
  let ?rest = "concat (map (\<lambda>row. map (Pair row) [0..<h]) rows)"
  have ih: "reveal_rows im h rows = reveal_flat im ?rest"
    by (rule ext) (rule Cons.IH)
  have "(\<lambda>r. case r of Return t \<Rightarrow> ret (Return t) | Continue b \<Rightarrow> reveal_rows im h rows b)
        = go_on (reveal_flat im ?rest)"
    by (rule ext) (simp add: go_on_def Cons.IH split: flow.split)
  then show ?case by (simp add: reveal_columns_flat reveal_flat_append)
qed

lemma reveal_message_flat:
  "reveal_message im =
     bind (reveal_flat im (scan_order (fst (image_size im)) (snd (image_size im))) []) finish"
proof -
  have "(\<lambda>r. case r of Return t \<Rightarrow> ret t | Continue b \<Rightarrow> ret ERROR) = finish"
    by (rule ext) (simp add: finish_def)
  then show ?thesis
    by (simp add: reveal_message_def reveal_rows_flat scan_order_def)
qed

subsection \<open>What reveal_message reads and returns\<close>

lemma lsb_string_Cons:
  "lsb_string im (c # cs) = bit_char (lsb_of (image_data im (prod.swap c))) # lsb_string im cs"
  by (simp add: lsb_string_def)

lemma length_lsb_string [simp]: "length (lsb_string im cs) = length cs"
  by (simp add: lsb_string_def)

lemma reveal_body_step:
  assumes "readable im c"
  shows "reveal_body im (fst c) (snd c) buf =
     ([Get (prod.swap c)],
      if endswith (buf @ [bit_char (lsb_of (image_data im (prod.swap c)))]) delimeter
      then ret_flow (binary_to_text (take (length buf + 1 - 16)
             (buf @ [bit_char (lsb_of (image_data im (prod.swap c)))])))
      else Inr (Continue (buf @ [bit_char (lsb_of (image_data im (prod.swap c)))])))"
proof -
  obtain row column where c: "c = (row, column)" by (cases c)
  from assms c obtain c0 rest where p: "image_data im (column, row) = c0 # rest"
    by (cases "image_data im (column, row)") (simp_all add: readable_def)
  from assms c p show ?thesis
    by (simp add: reveal_body_unfold readable_def lsb_of_def)
qed

lemma reveal_body_oob:
  "\<not> in_bounds im (prod.swap c) \<Longrightarrow>
   reveal_body im (fst c) (snd c) buf = ([Get (prod.swap c)], Inl IndexError)"
  by (cases c) (simp add: reveal_body_unfold)

lemma reveal_flat_no_match:
  assumes "\<forall>c \<in> set cs. readable im c"
      and "\<forall>n. 0 < n \<and> n \<le> length cs \<longrightarrow> \<not> endswith (buf @ take n (lsb_string im cs)) delimeter"
  shows "reveal_flat im cs buf = (map (Get \<circ> prod.swap) cs, Inr (Continue (buf @ lsb_string im cs)))"
  using assms
proof (induction cs arbitrary: buf)
  case Nil
  show ?case by (simp add: ret_def lsb_string_def)
next
  case (Cons c cs)
  let ?b = "buf @ take 1 (lsb_string im (c # cs))"
  from Cons.prems(1) have r: "readable im c" by simp
  from Cons.prems(2) have n1: "\<not> endswith ?b delimeter"
    by (elim allE [of _ 1]) simp
  have rest: "\<forall>n. 0 < n \<and> n \<le> length cs \<longrightarrow> \<not> endswith (?b @ take n (lsb_string im cs)) delimeter"
  proof (intro allI impI)
    fix n assume "0 < n \<and> n \<le> length cs"
    with Cons.prems(2) have "\<not> endswith (buf @ take (Suc n) (lsb_string im (c # cs))) delimeter"
      by (elim allE [of _ "Suc n"]) simp
    then show "\<not> endswith (?b @ take n (lsb_string im cs)) delimeter"
      by (simp add: lsb_string_Cons)
  qed
  from Cons.prems(1) have "\<forall>c \<in> set cs. readable im c" by simp
  from Cons.IH [OF this rest]
  have "reveal_flat im cs ?b = (map (Get \<circ> prod.swap) cs, Inr (Continue (?b @ lsb_string im cs)))" .
  with n1 show ?case
    by (simp add: reveal_body_step [OF r] lsb_string_Cons)
qed

lemma reveal_flat_first_match:
  assumes "0 < n" and "n \<le> length cs"
      and "\<forall>c \<in> set (take n cs). readable im c"
      and "endswith (buf @ take n (lsb_string im cs)) delimeter"
      and "\<forall>m. 0 < m \<and> m < n \<longrightarrow> \<not> endswith (buf @ take m (lsb_string im cs)) delimeter"
  shows "reveal_flat im cs buf =
     (map (Get \<circ> prod.swap) (take n cs),
      ret_flow (binary_to_text (take (length buf + n - 16) (buf @ take n (lsb_string im cs)))))"
  using assms
proof (induction cs arbitrary: buf n)
  case Nil
  then show ?case by simp
next
  case (Cons c cs)
  let ?b = "buf @ take 1 (lsb_string im (c # cs))"
  from Cons.prems(1,3) have r: "readable im c" by (cases n) simp_all
  show ?case
  proof (cases "n = 1")
    case True
    with Cons.prems(4) show ?thesis
      by (simp add: reveal_body_step [OF r] lsb_string_Cons ret_flow_def ret_def split: sum.split)
  next
    case False
    with Cons.prems(1) obtain n' where n: "n = Suc n'" and n': "0 < n'"
      by (cases n) auto
    from Cons.prems(5) n n' have n1: "\<not> endswith ?b delimeter"
      by (elim allE [of _ 1]) simp
    have a2: "n' \<le> length cs" using Cons.prems(2) n by simp
    have a3: "\<forall>c \<in> set (take n' cs). readable im c" using Cons.prems(3) n by simp
    have a4: "endswith (?b @ take n' (lsb_string im cs)) delimeter"
      using Cons.prems(4) n by (simp add: lsb_string_Cons)
    have a5: "\<forall>m. 0 < m \<and> m < n' \<longrightarrow> \<not> endswith (?b @ take m (lsb_string im cs)) delimeter"
    proof (intro allI impI)
      fix m assume "0 < m \<and> m < n'"
      with Cons.prems(5) n
      have "\<not> endswith (buf @ take (Suc m) (lsb_string im (c # cs))) delimeter"
        by (elim allE [of _ "Suc m"]) simp
      then show "\<not> endswith (?b @ take m (lsb_string im cs)) delimeter"
        by (simp add: lsb_string_Cons)
    qed
    from Cons.IH [OF n' a2 a3 a4 a5]
    have "reveal_flat im cs ?b =
       (map (Get \<circ> prod.swap) (take n' cs),
        ret_flow (binary_to_text (take (length ?b + n' - 16) (?b @ take n' (lsb_string im cs)))))" .
    with n1 n show ?thesis
      by (simp add: reveal_body_step [OF r] lsb_string_Cons)
  qed
qed

lemma reveal_flat_out_of_bounds:
  assumes "k < length cs"
      and "\<forall>c \<in> set (take k cs). readable im c"
      and "\<not> in_bounds im (prod.swap (cs ! k))"
      and "\<forall>m. 0 < m \<and> m \<le> k \<longrightarrow> \<not> endswith (buf @ take m (lsb_string im cs)) delimeter"
  shows "reveal_flat im cs buf = (map (Get \<circ> prod.swap) (take (Suc k) cs), Inl IndexError)"
proof -
  have cs: "cs = take k cs @ cs ! k # drop (Suc k) cs"
    using assms(1) by (simp add: id_take_nth_drop)
  have nm: "\<forall>n. 0 < n \<and> n \<le> length (take k cs) \<longrightarrow>
      \<not> endswith (buf @ take n (lsb_string im (take k cs))) delimeter"
  proof (intro allI impI)
    fix n assume n: "0 < n \<and> n \<le> length (take k cs)"
    then have "n \<le> k" by simp
    then have "take n (lsb_string im (take k cs)) = take n (lsb_string im cs)"
      by (simp add: lsb_string_def take_map min_def)
    with assms(4) n \<open>n \<le> k\<close> show "\<not> endswith (buf @ take n (lsb_string im (take k cs))) delimeter"
      by simp
  qed
  have "reveal_flat im cs buf = reveal_flat im (take k cs @ cs ! k # drop (Suc k) cs) buf"
    using cs by simp
  also have "\<dots> = (map (Get \<circ> prod.swap) (take k cs) @ [Get (prod.swap (cs ! k))], Inl IndexError)"
    by (simp add: reveal_flat_append reveal_flat_no_match [OF assms(2) nm]
        reveal_body_oob [OF assms(3)])
  also have "map (Get \<circ> prod.swap) (take k cs) @ [Get (prod.swap (cs ! k))]
      = map (Get \<circ> prod.swap) (take (Suc k) cs)"
    using assms(1) by (simp add: take_Suc_conv_app_nth)
  finally show ?thesis .
qed

subsection \<open>What hide_message writes\<close>

lemma image_size_write_bit [simp]: "image_size (write_bit im c d) = image_size im"
  by (simp add: write_bit_def)

lemma in_bounds_write_bit [simp]: "in_bounds (write_bit im c d) p = in_bounds im p"
  by (simp add: in_bounds_def)

lemma embed_pixel_nonempty: "p \<noteq> [] \<Longrightarrow> embed_pixel p d \<noteq> []"
  by (cases p) (simp_all add: embed_pixel_def)

lemma lsb_of_embed_pixel:
  assumes "p \<noteq> []"
  shows "lsb_of (embed_pixel p d) = int (bit_val d)"
proof -
  from assms obtain c0 cs where p: "p = c0 # cs" by (cases p) simp_all
  have "int (bit_val d) = 0 \<or> int (bit_val d) = 1" by (simp add: bit_val_def)
  then have "((c0 AND NOT 1) OR int (bit_val d)) AND 1 = int (bit_val d)"
    by (rule and_not_or_lsb)
  then show ?thesis
    by (simp only: p embed_pixel_def lsb_of_def list.case)
qed

lemma multibandD: "multiband im \<Longrightarrow> in_bounds im c \<Longrightarrow> image_data im c \<noteq> []"
  unfolding multiband_def by blast

lemma multiband_write_bit:
  assumes "multiband im" and "in_bounds im c"
  shows "multiband (write_bit im c d)"
  unfolding multiband_def
proof (intro allI impI)
  fix p assume "in_bounds (write_bit im c d) p"
  then have ib: "in_bounds im p" by simp
  show "image_data (write_bit im c d) p \<noteq> []"
  proof (cases "p = prod.swap c")
    case True
    with multibandD [OF assms] show ?thesis
      by (simp add: write_bit_def embed_pixel_nonempty)
  next
    case False
    with multibandD [OF assms(1) ib] show ?thesis
      by (simp add: write_bit_def)
  qed
qed

lemma hide_body_step:
  assumes "in_bounds im c" and "image_data im c \<noteq> []" and "is_bit (bm ! idx)"
  shows "hide_body bm (fst c) (snd c) (im, idx) =
     ([Get c, Put (prod.swap c) (embed_pixel (image_data im c) (bm ! idx))],
      if in_bounds im (prod.swap c) then Inr (write_bit im c (bm ! idx), idx + 1)
      else Inl IndexError)"
proof -
  obtain row column where c: "c = (row, column)" by (cases c)
  from assms(2) c obtain c0 rest where p: "image_data im (row, column) = c0 # rest"
    by (cases "image_data im (row, column)") simp_all
  from assms c p show ?thesis
    by (simp add: hide_body_unfold int_of_digit_bit embed_pixel_def write_bit_def)
qed

lemma hide_flat_embed:
  assumes "list_all is_bit bm" and "multiband im"
      and "\<forall>c \<in> set cs. in_bounds im c \<and> in_bounds im (prod.swap c)"
  shows "snd (hide_flat bm cs (im, idx)) = Inr (embed bm cs (im, idx))"
  using assms(2,3)
proof (induction cs arbitrary: im idx)
  case Nil
  show ?case by (simp add: ret_def)
next
  case (Cons c cs)
  show ?case
  proof (cases "idx < length bm")
    case False
    then show ?thesis by (simp add: ret_def)
  next
    case True
    with assms(1) have b: "is_bit (bm ! idx)" by (simp add: list_all_length)
    from Cons.prems have ib: "in_bounds im c" "in_bounds im (prod.swap c)" by simp_all
    with Cons.prems(1) have ne: "image_data im c \<noteq> []" by (simp add: multibandD)
    have m': "multiband (write_bit im c (bm ! idx))"
      using Cons.prems(1) ib(1) by (rule multiband_write_bit)
    have r': "\<forall>c' \<in> set cs. in_bounds (write_bit im c (bm ! idx)) c'
        \<and> in_bounds (write_bit im c (bm ! idx)) (prod.swap c')"
      using Cons.prems(2) by simp
    from Cons.IH [OF m' r', of "idx + 1"] True ib show ?thesis
      by (simp add: hide_body_step [OF ib(1) ne b])
  qed
qed

lemma image_size_embed: "image_size (fst (embed bm cs st)) = image_size (fst st)"
  by (induction cs arbitrary: st) simp_all

lemma snd_embed:
  "snd (embed bm cs st) = (if snd st < length bm then min (snd st + length cs) (length bm) else snd st)"
proof (induction cs arbitrary: st)
  case Nil
  show ?case by simp
next
  case (Cons c cs)
  show ?case by (simp add: Cons.IH) 
qed

lemma multiband_embed:
  "multiband (fst st) \<Longrightarrow> \<forall>c \<in> set cs. in_bounds (fst st) c \<Longrightarrow> multiband (fst (embed bm cs st))"
proof (induction cs arbitrary: st)
  case Nil
  then show ?case by simp
next
  case (Cons c cs)
  then show ?case by (simp add: multiband_write_bit)
qed

lemma embed_frame:
  "p \<notin> prod.swap ` set cs \<Longrightarrow> image_data (fst (embed bm cs st)) p = image_data (fst st) p"
proof (induction cs arbitrary: st)
  case Nil
  show ?case by simp
next
  case (Cons c cs)
  then show ?case by (simp add: write_bit_def)
qed

lemma embed_lsb:
  assumes "distinct cs" and "multiband (fst st)" and "\<forall>c \<in> set cs. in_bounds (fst st) c"
      and "k < length cs" and "snd st + k < length bm"
  shows "lsb_of (image_data (fst (embed bm cs st)) (prod.swap (cs ! k))) = int (bit_val (bm ! (snd st + k)))"
  using assms
proof (induction cs arbitrary: st k)
  case Nil
  then show ?case by simp
next
  case (Cons c cs)
  from Cons.prems(5) have lt: "snd st < length bm" by simp
  let ?st = "(write_bit (fst st) c (bm ! snd st), snd st + 1)"
  from Cons.prems(2,3) have ne: "image_data (fst st) c \<noteq> []" by (simp add: multibandD)
  show ?case
  proof (cases k)
    case 0
    have "inj prod.swap" by (rule injI) (auto simp: prod.swap_def prod_eq_iff)
    with Cons.prems(1) have "prod.swap c \<notin> prod.swap ` set cs"
      by (simp add: inj_image_mem_iff)
    from embed_frame [OF this, of bm ?st] lt 0 ne show ?thesis
      by (simp add: write_bit_def lsb_of_embed_pixel)
  next
    case (Suc k')
    have "lsb_of (image_data (fst (embed bm cs ?st)) (prod.swap (cs ! k')))
          = int (bit_val (bm ! (snd ?st + k')))"
    proof (rule Cons.IH)
      show "distinct cs" using Cons.prems(1) by simp
      show "multiband (fst ?st)" using Cons.prems(2,3) by (simp add: multiband_write_bit)
      show "\<forall>c \<in> set cs. in_bounds (fst ?st) c" using Cons.prems(3) by simp
      show "k' < length cs" using Cons.prems(4) Suc by simp
      show "snd ?st + k' < length bm" using Cons.prems(5) Suc by simp
    qed
    with lt Suc show ?thesis by simp
  qed
qed

subsection \<open>Decoding what was encoded\<close>

lemma sentinel_freeD: "sentinel_free bm \<Longrightarrow> m < length bm \<Longrightarrow> \<not> endswith (take m bm) delimeter"
  by (simp add: sentinel_free_def list_all_iff)

lemma bit_char_bit_val: "is_bit d \<Longrightarrow> bit_char (int (bit_val d)) = d"
  by (auto simp: is_bit_def bit_char_def bit_val_def)

lemma lsb_string_embed:
  assumes "distinct cs" and "multiband im" and "\<forall>c \<in> set cs. in_bounds im c"
      and "list_all is_bit bm" and "n \<le> length cs" and "idx + n \<le> length bm"
  shows "lsb_string (fst (embed bm cs (im, idx))) (take n cs) = take n (drop idx bm)"
proof (rule nth_equalityI)
  show "length (lsb_string (fst (embed bm cs (im, idx))) (take n cs)) = length (take n (drop idx bm))"
    using assms(5,6) by simp
next
  fix k assume "k < length (lsb_string (fst (embed bm cs (im, idx))) (take n cs))"
  with assms(5) have k: "k < n" by simp
  with assms(5,6) have kc: "k < length cs" and kb: "idx + k < length bm" by simp_all
  from embed_lsb [of cs "(im, idx)" k bm] assms(1-3) kc kb
  have "lsb_of (image_data (fst (embed bm cs (im, idx))) (prod.swap (cs ! k)))
        = int (bit_val (bm ! (idx + k)))" by simp
  moreover from assms(4) kb have "is_bit (bm ! (idx + k))" by (simp add: list_all_length)
  ultimately show "lsb_string (fst (embed bm cs (im, idx))) (take n cs) ! k = take n (drop idx bm) ! k"
    using k kc kb by (simp add: lsb_string_def bit_char_bit_val)
qed

lemma bit_val_digit_char: "bit_val (digit_char (n mod 2)) = n mod 2"
  by (simp add: digit_char_mod2 bit_val_def odd_iff_mod_2_eq_one)

lemma unsigned_value_bits_msb: "unsigned_value (bits_msb k n) = n mod 2 ^ k"
proof (induction k arbitrary: n)
  case 0
  show ?case by simp
next
  case (Suc k)
  have "n mod (2 * 2 ^ k) = 2 * (n div 2 mod 2 ^ k) + n mod 2"
    by (rule mod_mult2_eq)
  then show ?case by (simp add: Suc.IH bit_val_digit_char)
qed

lemma unsigned_value_byte8: "c \<le> 255 \<Longrightarrow> unsigned_value (byte8 c) = c"
  using unsigned_value_bits_msb [of 8 c] by (simp add: bits_msb_8)

lemma chunk_concat_byte8:
  "j < length message \<Longrightarrow> take 8 (drop (8 * j) (concat (map byte8 message))) = byte8 (message ! j)"
proof (induction message arbitrary: j)
  case Nil
  then show ?case by simp
next
  case (Cons c message)
  show ?case
  proof (cases j)
    case 0
    then show ?thesis by simp
  next
    case (Suc j')
    with Cons.prems have "j' < length message" by simp
    from Cons.IH [OF this] Suc show ?thesis by simp
  qed
qed

lemma binary_to_text_text_to_binary:
  assumes "\<forall>c \<in> set message. c \<le> 255"
  shows "binary_to_text (text_to_binary message) = Inr message"
proof -
  from assms have "map format_08b message = map byte8 message"
    by (simp add: format_08b_byte8)
  then have eq: "text_to_binary message = concat (map byte8 message)"
    by (simp only: text_to_binary_concat)
  have len: "length (text_to_binary message) = 8 * length message"
    by (simp add: eq length_concat_byte8)
  have "map (\<lambda>j. unsigned_value (take 8 (drop (8 * j) (text_to_binary message)))) [0..<length message]
        = map (\<lambda>j. message ! j) [0..<length message]"
  proof (rule map_cong [OF refl])
    fix j assume "j \<in> set [0..<length message]"
    then have j: "j < length message" by simp
    with assms have "message ! j \<le> 255" by simp
    with j show "unsigned_value (take 8 (drop (8 * j) (text_to_binary message))) = message ! j"
      by (simp add: eq chunk_concat_byte8 unsigned_value_byte8)
  qed
  also have "\<dots> = message" by (rule map_nth)
  finally have m: "map (\<lambda>j. unsigned_value (take 8 (drop (8 * j) (text_to_binary message))))
      [0..<length message] = message" .
  have "(length (text_to_binary message) + 7) div 8 = length message"
    by (simp add: len)
  with binary_to_text_map [OF list_all_is_bit_text, of message] m show ?thesis
    by simp
qed

subsection \<open>Hiding, then revealing, on a square grid\<close>

lemma in_bounds_scan: "image_size im = (w, h) \<Longrightarrow> c \<in> set (scan_order w h) \<Longrightarrow> in_bounds im c"
  by (simp add: set_scan_order in_bounds_def)

lemma in_bounds_scan_swap:
  "image_size im = (s, s) \<Longrightarrow> c \<in> set (scan_order s s) \<Longrightarrow> in_bounds im (prod.swap c)"
  by (simp add: set_scan_order in_bounds_def)

lemma list_all_is_bit_message: "list_all is_bit (text_to_binary message @ delimeter)"
  by (simp add: list_all_is_bit_text list_all_is_bit_delimeter)

lemma hide_message_square:
  assumes "image_size im = (s, s)" and "multiband im"
  shows "snd (hide_message im message)
         = Inr (embed (text_to_binary message @ delimeter) (scan_order s s) (im, 0))"
proof -
  have "\<forall>c \<in> set (scan_order s s). in_bounds im c \<and> in_bounds im (prod.swap c)"
    using assms(1) by (simp add: in_bounds_scan in_bounds_scan_swap)
  from hide_flat_embed [OF list_all_is_bit_message assms(2) this] assms(1) show ?thesis
    by (simp add: hide_message_flat)
qed

lemma snd_bind_ok: "snd m = Inr x \<Longrightarrow> snd (bind m f) = snd (f x)"
  by (cases m) simp

lemma lsb_string_take: "take n (lsb_string im cs) = lsb_string im (take n cs)"
  by (simp add: lsb_string_def take_map)

lemma endswith_append_self: "endswith (a @ d) d"
  by (simp add: endswith_def)

lemma length_delimeter [simp]: "length delimeter = 16"
  by (simp add: delimeter_def)

lemma roundtrip_square:
  assumes "image_size im = (s, s)" and "multiband im"
      and "\<forall>c \<in> set message. c \<le> 255"
      and "8 * length message + 16 \<le> s * s"
      and "sentinel_free (text_to_binary message @ delimeter)"
  shows "snd (roundtrip im message) = Inr message"
proof -
  let ?bm = "text_to_binary message @ delimeter"
  let ?cs = "scan_order s s"
  let ?st = "embed ?bm ?cs (im, 0)"
  let ?im = "fst ?st"
  have eq: "text_to_binary message = concat (map byte8 message)"
    using assms(3) by (simp add: text_to_binary_concat format_08b_byte8 cong: map_cong)
  have L: "length ?bm = 8 * length message + 16"
    by (simp add: eq length_concat_byte8)
  have hide: "snd (hide_message im message) = Inr ?st"
    using assms(1,2) by (rule hide_message_square)
  have size': "image_size ?im = (s, s)"
    using assms(1) by (simp add: image_size_embed)
  have inb: "\<forall>c \<in> set ?cs. in_bounds im c"
    using assms(1) by (simp add: in_bounds_scan)
  have mb': "multiband ?im"
    using assms(2) inb by (simp add: multiband_embed)
  have "lsb_string ?im (take (length ?bm) ?cs) = take (length ?bm) (drop 0 ?bm)"
    using assms(4) L
    by (intro lsb_string_embed distinct_scan_order assms(2) inb list_all_is_bit_message) simp_all
  then have ls: "take (length ?bm) (lsb_string ?im ?cs) = ?bm"
    by (simp add: lsb_string_take)
  have pre: "take m (lsb_string ?im ?cs) = take m ?bm" if "m \<le> length ?bm" for m
  proof -
    have "take m (take (length ?bm) (lsb_string ?im ?cs)) = take m ?bm"
      by (simp only: ls)
    with that show ?thesis by (simp add: min_def)
  qed
  have rd: "\<forall>c \<in> set (take (length ?bm) ?cs). readable ?im c"
  proof
    fix c assume "c \<in> set (take (length ?bm) ?cs)"
    then have c: "c \<in> set ?cs" by (rule in_set_takeD)
    from in_bounds_scan_swap [OF size' c] have "in_bounds ?im (prod.swap c)" .
    with multibandD [OF mb'] show "readable ?im c" by (simp add: readable_def)
  qed
  have match: "endswith ([] @ take (length ?bm) (lsb_string ?im ?cs)) delimeter"
    by (simp only: ls append_Nil endswith_append_self)
  have nomatch: "\<forall>m. 0 < m \<and> m < length ?bm \<longrightarrow>
      \<not> endswith ([] @ take m (lsb_string ?im ?cs)) delimeter"
  proof (intro allI impI)
    fix m assume m: "0 < m \<and> m < length ?bm"
    then have "take m (lsb_string ?im ?cs) = take m ?bm" by (intro pre) simp
    with sentinel_freeD [OF assms(5), of m] m
    show "\<not> endswith ([] @ take m (lsb_string ?im ?cs)) delimeter" by simp
  qed
  have pos: "0 < length ?bm" by simp
  have le: "length ?bm \<le> length ?cs" using assms(4) L by simp
  have "reveal_flat ?im ?cs [] =
      (map (Get \<circ> prod.swap) (take (length ?bm) ?cs),
       ret_flow (binary_to_text (take (length ([]::string) + length ?bm - 16)
          ([] @ take (length ?bm) (lsb_string ?im ?cs)))))"
    using pos le rd match nomatch by (rule reveal_flat_first_match)
  also have "take (length ([]::string) + length ?bm - 16) ([] @ take (length ?bm) (lsb_string ?im ?cs))
      = text_to_binary message"
    by (simp only: ls) simp
  finally have "snd (reveal_flat ?im ?cs []) = Inr (Return message)"
    using assms(3) by (simp add: binary_to_text_text_to_binary ret_flow_def)
  then have "snd (reveal_message ?im) = Inr message"
    by (simp add: reveal_message_flat size' snd_bind_ok finish_def ret_def)
  with hide show ?thesis
    by (simp add: roundtrip_def snd_bind_ok)
qed

subsection \<open>The pixel accesses of both operations\<close>

lemma gets_append [simp]: "gets (a @ b) = gets a @ gets b"
  by (induction a rule: gets.induct) simp_all

lemma puts_append [simp]: "puts (a @ b) = puts a @ puts b"
  by (induction a rule: puts.induct) simp_all

lemma gets_map_Get [simp]: "gets (map (Get \<circ> f) cs) = map f cs"
  by (induction cs) simp_all

lemma puts_map_Get [simp]: "puts (map (Get \<circ> f) cs) = []"
  by (induction cs) simp_all

lemma hide_body_cases:
  assumes "is_bit (bm ! idx)"
  obtains (stopped) e where "hide_body bm (fst c) (snd c) (im, idx) = ([Get c], Inl e)"
  | (failed) v where "hide_body bm (fst c) (snd c) (im, idx) = ([Get c, Put (prod.swap c) v], Inl IndexError)"
      and "lsb_of v = int (bit_val (bm ! idx))"
  | (written) v im' where "hide_body bm (fst c) (snd c) (im, idx) = ([Get c, Put (prod.swap c) v], Inr (im', idx + 1))"
      and "lsb_of v = int (bit_val (bm ! idx))"
proof (cases "in_bounds im c \<and> image_data im c \<noteq> []")
  case False
  obtain row column where c: "c = (row, column)" by (cases c)
  from False c assms have "hide_body bm (fst c) (snd c) (im, idx) = ([Get c], Inl IndexError)"
    by (auto simp: hide_body_unfold int_of_digit_bit split: list.split)
  then show ?thesis by (rule stopped)
next
  case True
  then have ib: "in_bounds im c" and ne: "image_data im c \<noteq> []" by simp_all
  let ?v = "embed_pixel (image_data im c) (bm ! idx)"
  have l: "lsb_of ?v = int (bit_val (bm ! idx))" using ne by (rule lsb_of_embed_pixel)
  show ?thesis
  proof (cases "in_bounds im (prod.swap c)")
    case True
    with hide_body_step [OF ib ne assms] l show ?thesis by (intro written [of ?v]) simp_all
  next
    case False
    with hide_body_step [OF ib ne assms] l show ?thesis by (intro failed [of ?v]) simp_all
  qed
qed

lemma logged_Nil: "logged bm idx cs []"
  by (simp add: logged_def)

lemma logged_Get: "logged bm idx (c # cs) [Get c]"
  by (simp add: logged_def)

lemma logged_Get_Put:
  "lsb_of v = int (bit_val (bm ! idx)) \<Longrightarrow> logged bm idx (c # cs) [Get c, Put (prod.swap c) v]"
  by (simp add: logged_def)

lemma logged_step:
  assumes "lsb_of v = int (bit_val (bm ! idx))" and "logged bm (idx + 1) cs tr"
  shows "logged bm idx (c # cs) ([Get c, Put (prod.swap c) v] @ tr)"
proof -
  from assms(2) have a: "length (gets tr) \<le> length cs" "gets tr = take (length (gets tr)) cs"
    "length (puts tr) \<le> length cs" "map fst (puts tr) = map prod.swap (take (length (puts tr)) cs)"
    and b: "\<And>k. k < length (puts tr) \<Longrightarrow> lsb_of (snd (puts tr ! k)) = int (bit_val (bm ! (idx + 1 + k)))"
    by (simp_all add: logged_def)
  have "lsb_of (snd (((prod.swap c, v) # puts tr) ! k)) = int (bit_val (bm ! (idx + k)))"
    if "k < Suc (length (puts tr))" for k
  proof (cases k)
    case 0
    with assms(1) show ?thesis by simp
  next
    case (Suc k')
    with that b [of k'] show ?thesis by simp
  qed
  with a show ?thesis
    by (simp add: logged_def)
qed

lemma hide_flat_logged:
  assumes "list_all is_bit bm"
  shows "logged bm (snd st) cs (fst (hide_flat bm cs st))"
proof (induction cs arbitrary: st)
  case Nil
  show ?case by (simp add: ret_def logged_Nil)
next
  case (Cons c cs)
  obtain im idx where st: "st = (im, idx)" by (cases st)
  show ?case
  proof (cases "idx < length bm")
    case False
    with st show ?thesis by (simp add: ret_def logged_Nil)
  next
    case True
    with assms have b: "is_bit (bm ! idx)" by (simp add: list_all_length)
    from b show ?thesis
    proof (cases rule: hide_body_cases [where c = c and im = im])
      case (stopped e)
      with True st show ?thesis by (simp add: logged_Get)
    next
      case (failed v)
      with True st show ?thesis by (simp add: logged_Get_Put)
    next
      case (written v im')
      from Cons.IH [of "(im', idx + 1)"]
      have "logged bm (idx + 1) cs (fst (hide_flat bm cs (im', idx + 1)))" by simp
      from logged_step [OF written(2) this, of c] written(1) True st show ?thesis by simp
    qed
  qed
qed

lemma reveal_flat_gets:
  "\<exists>n \<le> length cs. fst (reveal_flat im cs buf) = map (Get \<circ> prod.swap) (take n cs)"
proof (induction cs arbitrary: buf)
  case Nil
  show ?case by (simp add: ret_def)
next
  case (Cons c cs)
  obtain tr r where rb: "reveal_body im (fst c) (snd c) buf = (tr, r)"
    by (cases "reveal_body im (fst c) (snd c) buf")
  with fst_reveal_body [of im "fst c" "snd c" buf] have tr: "tr = [Get (prod.swap c)]"
    by (cases c) simp
  show ?case
  proof (cases r)
    case (Inl e)
    with rb tr have "fst (reveal_flat im (c # cs) buf) = map (Get \<circ> prod.swap) (take 1 (c # cs))"
      by simp
    then show ?thesis by (intro exI [of _ 1]) simp
  next
    case (Inr f)
    show ?thesis
    proof (cases f)
      case (Return t)
      with Inr rb tr have "fst (reveal_flat im (c # cs) buf) = map (Get \<circ> prod.swap) (take 1 (c # cs))"
        by (simp add: ret_def)
      then show ?thesis by (intro exI [of _ 1]) simp
    next
      case (Continue b)
      from Cons.IH [of b] obtain n where n: "n \<le> length cs"
        and "fst (reveal_flat im cs b) = map (Get \<circ> prod.swap) (take n cs)" by blast
      with Continue Inr rb tr
      have "fst (reveal_flat im (c # cs) buf) = map (Get \<circ> prod.swap) (take (Suc n) (c # cs))"
        by simp
      with n show ?thesis by (intro exI [of _ "Suc n"]) simp
    qed
  qed
qed

lemma fst_bind_finish: "fst (bind m finish) = fst m"
proof (cases m)
  case (Pair tr r)
  show ?thesis
  proof (cases r)
    case (Inl e)
    with Pair show ?thesis by simp
  next
    case (Inr f)
    with Pair show ?thesis by (cases f) (simp_all add: finish_def ret_def)
  qed
qed

lemma reveal_message_gets:
  assumes "image_size im = (w, h)"
  shows "\<exists>n \<le> w * h. fst (reveal_message im) = map (Get \<circ> prod.swap) (take n (scan_order w h))"
  using reveal_flat_gets [of "scan_order w h" im "[]"] assms
  by (simp add: reveal_message_flat fst_bind_finish)

lemma shared_scan_order_lemma:
  assumes "image_size im = (w, h)" and "image_size im' = (w, h)"
  shows "(\<forall>k < w * h. scan_order w h ! k = (k div h, k mod h))
    \<and> length (gets (fst (hide_message im message))) \<le> w * h
    \<and> (\<forall>k < length (gets (fst (hide_message im message))).
          gets (fst (hide_message im message)) ! k = scan_order w h ! k)
    \<and> length (puts (fst (hide_message im message))) \<le> w * h
    \<and> (\<forall>k < length (puts (fst (hide_message im message))).
          fst (puts (fst (hide_message im message)) ! k) = prod.swap (scan_order w h ! k)
          \<and> lsb_of (snd (puts (fst (hide_message im message)) ! k))
              = int (bit_val ((text_to_binary message @ delimeter) ! k)))
    \<and> puts (fst (reveal_message im')) = []
    \<and> length (gets (fst (reveal_message im'))) \<le> w * h
    \<and> (\<forall>k < length (gets (fst (reveal_message im'))).
          gets (fst (reveal_message im')) ! k = prod.swap (scan_order w h ! k))
    \<and> (\<forall>k. k < length (puts (fst (hide_message im message)))
            \<and> k < length (gets (fst (reveal_message im')))
          \<longrightarrow> fst (puts (fst (hide_message im message)) ! k) = gets (fst (reveal_message im')) ! k)"
proof -
  let ?cs = "scan_order w h"
  let ?bm = "text_to_binary message @ delimeter"
  let ?trh = "fst (hide_message im message)"
  let ?trr = "fst (reveal_message im')"
  have lg: "logged ?bm 0 ?cs ?trh"
    using hide_flat_logged [OF list_all_is_bit_message, of message "(im, 0)" ?cs] assms(1)
    by (simp add: hide_message_flat)
  then have g1: "length (gets ?trh) \<le> w * h" and g2: "gets ?trh = take (length (gets ?trh)) ?cs"
    and p1: "length (puts ?trh) \<le> w * h"
    and p2: "map fst (puts ?trh) = map prod.swap (take (length (puts ?trh)) ?cs)"
    and p3: "\<And>k. k < length (puts ?trh) \<Longrightarrow>
        lsb_of (snd (puts ?trh ! k)) = int (bit_val (?bm ! k))"
    by (simp_all add: logged_def)
  have g3: "gets ?trh ! k = ?cs ! k" if "k < length (gets ?trh)" for k
  proof -
    have "gets ?trh ! k = take (length (gets ?trh)) ?cs ! k" using g2 by simp
    with that show ?thesis by simp
  qed
  have p4: "fst (puts ?trh ! k) = prod.swap (?cs ! k)" if "k < length (puts ?trh)" for k
  proof -
    have "fst (puts ?trh ! k) = map fst (puts ?trh) ! k" using that by simp
    also have "\<dots> = map prod.swap (take (length (puts ?trh)) ?cs) ! k" using p2 by simp
    also have "\<dots> = prod.swap (?cs ! k)" using that p1 by simp
    finally show ?thesis .
  qed
  from reveal_message_gets [OF assms(2)] obtain n where n: "n \<le> w * h"
    and r: "?trr = map (Get \<circ> prod.swap) (take n ?cs)" by blast
  have r0: "puts ?trr = []" by (simp add: r)
  have r1: "length (gets ?trr) \<le> w * h" using n by (simp add: r)
  have r2: "gets ?trr ! k = prod.swap (?cs ! k)" if "k < length (gets ?trr)" for k
    using that n by (simp add: r)
  show ?thesis
    using g1 g3 p1 p3 p4 r0 r1 r2 by (simp add: nth_scan_order)
qed

subsection \<open>Grids that are not square\<close>

lemma first_bad_less:
  assumes "w \<noteq> h" and "0 < w" and "0 < h"
  shows "first_bad w h < w * h"
proof (cases "w < h")
  case True
  with assms have "w * 2 \<le> w * h" by (intro mult_le_mono2) simp
  with True assms show ?thesis by (simp add: first_bad_def)
next
  case False
  with assms have "h < w" by simp
  with assms(3) have "h * h < w * h" by simp
  with False show ?thesis by (simp add: first_bad_def)
qed

lemma first_bad_outside:
  assumes "w \<noteq> h" and "0 < w" and "0 < h" and "image_size im = (w, h)"
  shows "\<not> in_bounds im (prod.swap (scan_order w h ! first_bad w h))"
proof -
  from first_bad_less [OF assms(1-3)]
  have "scan_order w h ! first_bad w h = (first_bad w h div h, first_bad w h mod h)"
    by (rule nth_scan_order)
  with assms show ?thesis
    by (cases "w < h") (simp_all add: first_bad_def in_bounds_def)
qed

lemma first_bad_inside:
  assumes "w \<noteq> h" and "0 < w" and "0 < h" and "image_size im = (w, h)" and "k < first_bad w h"
  shows "in_bounds im (prod.swap (scan_order w h ! k))"
proof -
  from first_bad_less [OF assms(1-3)] assms(5) have "k < w * h" by simp
  then have nth: "scan_order w h ! k = (k div h, k mod h)" by (rule nth_scan_order)
  show ?thesis
  proof (cases "w < h")
    case True
    with assms(5) have "k < w" "k < h" by (simp_all add: first_bad_def)
    with assms(3,4) nth show ?thesis by (simp add: in_bounds_def)
  next
    case False
    with assms(1) have hw: "h < w" by simp
    from False assms(5) have "k < h * h" by (simp add: first_bad_def)
    with assms(3) have "k div h < h" by (simp add: div_less_iff_less_mult)
    moreover from assms(3) hw have "k mod h < w" by (meson mod_less_divisor less_trans)
    ultimately show ?thesis using assms(4) nth by (simp add: in_bounds_def)
  qed
qed

lemma in_set_take_nth: "c \<in> set (take k cs) \<Longrightarrow> \<exists>j < k. j < length cs \<and> c = cs ! j"
  by (auto simp: in_set_conv_nth)

lemma snd_bind_err: "snd m = Inl e \<Longrightarrow> snd (bind m f) = Inl e"
  by (cases m) simp

lemma hide_message_non_square:
  assumes "image_size im = (w, h)" and "multiband im"
      and "w \<noteq> h" and "0 < w" and "0 < h"
      and "first_bad w h < length (text_to_binary message @ delimeter)"
  shows "snd (hide_message im message) = Inl IndexError"
proof -
  let ?bm = "text_to_binary message @ delimeter"
  let ?cs = "scan_order w h"
  let ?k = "first_bad w h"
  let ?c = "?cs ! ?k"
  let ?st = "embed ?bm (take ?k ?cs) (im, 0)"
  have k: "?k < length ?cs" using first_bad_less [OF assms(3-5)] by simp
  then have cs: "?cs = take ?k ?cs @ ?c # drop (Suc ?k) ?cs"
    by (simp add: id_take_nth_drop)
  have pre: "\<forall>c \<in> set (take ?k ?cs). in_bounds im c \<and> in_bounds im (prod.swap c)"
  proof
    fix c assume c: "c \<in> set (take ?k ?cs)"
    then have "c \<in> set ?cs" by (rule in_set_takeD)
    then have 1: "in_bounds im c" using assms(1) by (simp add: in_bounds_scan)
    from in_set_take_nth [OF c] obtain j where "j < ?k" "c = ?cs ! j" by blast
    with first_bad_inside [OF assms(3-5) assms(1)] have "in_bounds im (prod.swap c)" by simp
    with 1 show "in_bounds im c \<and> in_bounds im (prod.swap c)" by simp
  qed
  have ok: "snd (hide_flat ?bm (take ?k ?cs) (im, 0)) = Inr ?st"
    using list_all_is_bit_message assms(2) pre by (rule hide_flat_embed)
  have idx: "snd ?st = ?k" using assms(6) k by (simp add: snd_embed min_def)
  have size1: "image_size (fst ?st) = (w, h)" using assms(1) by (simp add: image_size_embed)
  have mb1: "multiband (fst ?st)" using assms(2) pre by (simp add: multiband_embed)
  have "?c \<in> set ?cs" using k by simp
  then have ib: "in_bounds (fst ?st) ?c" using size1 by (simp add: in_bounds_scan)
  have ne: "image_data (fst ?st) ?c \<noteq> []" using mb1 ib by (rule multibandD)
  have bit: "is_bit (?bm ! ?k)" using list_all_is_bit_message [of message] assms(6)
    by (simp add: list_all_length)
  have oob: "\<not> in_bounds (fst ?st) (prod.swap ?c)"
    using assms(3-5) size1 by (rule first_bad_outside)
  have st: "?st = (fst ?st, ?k)" using idx by (simp add: prod_eq_iff)
  have "hide_body ?bm (fst ?c) (snd ?c) (fst ?st, ?k)
        = ([Get ?c, Put (prod.swap ?c) (embed_pixel (image_data (fst ?st) ?c) (?bm ! ?k))], Inl IndexError)"
    using hide_body_step [OF ib ne bit] oob by simp
  then have "snd (hide_body ?bm (fst ?c) (snd ?c) ?st) = Inl IndexError"
    using st by simp
  then have "snd (bind (hide_body ?bm (fst ?c) (snd ?c) ?st)
      (hide_flat ?bm (drop (Suc ?k) ?cs))) = Inl IndexError"
    by (rule snd_bind_err)
  moreover have "snd ?st < length ?bm" using idx assms(6) by simp
  ultimately have "snd (hide_flat ?bm (?c # drop (Suc ?k) ?cs) ?st) = Inl IndexError"
    by (simp only: hide_flat.simps if_True)
  then have "snd (bind (hide_flat ?bm (take ?k ?cs) (im, 0)) (hide_flat ?bm (?c # drop (Suc ?k) ?cs)))
      = Inl IndexError"
    using ok by (simp add: snd_bind_ok)
  then have "snd (hide_flat ?bm (take ?k ?cs @ ?c # drop (Suc ?k) ?cs) (im, 0)) = Inl IndexError"
    by (simp only: hide_flat_append)
  with cs have "snd (hide_flat ?bm ?cs (im, 0)) = Inl IndexError" by simp
  with assms(1) show ?thesis by (simp add: hide_message_flat)
qed

lemma reveal_message_non_square:
  assumes "image_size im = (w, h)" and "multiband im"
      and "w \<noteq> h" and "0 < w" and "0 < h"
      and "\<forall>m \<le> first_bad w h. \<not> endswith (take m (lsb_string im (scan_order w h))) delimeter"
  shows "reveal_message im
         = (map (Get \<circ> prod.swap) (take (Suc (first_bad w h)) (scan_order w h)), Inl IndexError)"
proof -
  let ?cs = "scan_order w h"
  let ?k = "first_bad w h"
  have k: "?k < length ?cs" using first_bad_less [OF assms(3-5)] by simp
  have rd: "\<forall>c \<in> set (take ?k ?cs). readable im c"
  proof
    fix c assume c: "c \<in> set (take ?k ?cs)"
    from in_set_take_nth [OF c] obtain j where "j < ?k" "c = ?cs ! j" by blast
    with first_bad_inside [OF assms(3-5) assms(1)] have "in_bounds im (prod.swap c)" by simp
    with multibandD [OF assms(2)] show "readable im c" by (simp add: readable_def)
  qed
  have oob: "\<not> in_bounds im (prod.swap (?cs ! ?k))"
    using assms(3-5) assms(1) by (rule first_bad_outside)
  have nm: "\<forall>m. 0 < m \<and> m \<le> ?k \<longrightarrow> \<not> endswith ([] @ take m (lsb_string im ?cs)) delimeter"
    using assms(6) by simp
  from reveal_flat_out_of_bounds [OF k rd oob nm] assms(1) show ?thesis
    by (simp add: reveal_message_flat)
qed

lemma is_bit_bit_char: "is_bit (bit_char b)"
  by (simp add: is_bit_def bit_char_def)

lemma binary_to_text_total: "list_all is_bit bits \<Longrightarrow> \<exists>t. binary_to_text bits = Inr t"
  by (simp add: binary_to_text_map)

lemma reveal_flat_total:
  assumes "\<forall>c \<in> set cs. readable im c" and "list_all is_bit buf"
  shows "\<exists>f. snd (reveal_flat im cs buf) = Inr f"
  using assms
proof (induction cs arbitrary: buf)
  case Nil
  show ?case by (simp add: ret_def)
next
  case (Cons c cs)
  let ?b = "buf @ [bit_char (lsb_of (image_data im (prod.swap c)))]"
  from Cons.prems(1) have r: "readable im c" by simp
  have bits: "list_all is_bit ?b" using Cons.prems(2) by (simp add: is_bit_bit_char)
  show ?case
  proof (cases "endswith ?b delimeter")
    case True
    have "list_all is_bit (take (length buf + 1 - 16) ?b)"
      using bits by (auto simp: list_all_iff dest: in_set_takeD)
    from binary_to_text_total [OF this] obtain t
      where "binary_to_text (take (length buf + 1 - 16) ?b) = Inr t" ..
    with True show ?thesis
      by (simp add: reveal_body_step [OF r] ret_flow_def ret_def)
  next
    case False
    from Cons.prems(1) have "\<forall>c \<in> set cs. readable im c" by simp
    from Cons.IH [OF this bits] obtain f where "snd (reveal_flat im cs ?b) = Inr f" ..
    with False show ?thesis
      by (simp add: reveal_body_step [OF r])
  qed
qed

lemma reveal_message_square_total:
  assumes "image_size im = (s, s)" and "multiband im"
  shows "\<exists>t. snd (reveal_message im) = Inr t"
proof -
  have "\<forall>c \<in> set (scan_order s s). readable im c"
  proof
    fix c assume "c \<in> set (scan_order s s)"
    with assms(1) have "in_bounds im (prod.swap c)" by (rule in_bounds_scan_swap)
    with multibandD [OF assms(2)] show "readable im c" by (simp add: readable_def)
  qed
  from reveal_flat_total [OF this, of "[]"] obtain f
    where f: "snd (reveal_flat im (scan_order s s) []) = Inr f" by auto
  have "\<exists>t. snd (finish f) = Inr t" by (cases f) (simp_all add: finish_def ret_def)
  with f assms(1) show ?thesis by (simp add: reveal_message_flat snd_bind_ok)
qed

subsection \<open>Blank images and the first match\<close>

lemma multiband_blank: "multiband (blank w h)"
  by (simp add: multiband_def blank_def)

lemma image_size_blank: "image_size (blank w h) = (w, h)"
  by (simp add: blank_def)

lemma lsb_string_blank: "lsb_string (blank w h) cs = replicate (length cs) CHR ''0''"
  by (simp add: lsb_string_def blank_def lsb_of_def bit_char_def map_replicate_const)

lemma endswith_set: "endswith s d \<Longrightarrow> set d \<subseteq> set s"
proof -
  assume "endswith s d"
  then have "drop (length s - length d) s = d" by (simp add: endswith_def)
  then have "set d = set (drop (length s - length d) s)" by simp
  then show ?thesis using set_drop_subset by fastforce
qed

lemma no_sentinel_in_zeros: "\<not> endswith (take m (replicate n CHR ''0'')) delimeter"
proof
  assume "endswith (take m (replicate n CHR ''0'')) delimeter"
  then have "set delimeter \<subseteq> set (take m (replicate n CHR ''0''))" by (rule endswith_set)
  moreover have "CHR ''1'' \<in> set delimeter" by (simp add: delimeter_def)
  ultimately have "CHR ''1'' \<in> set (take m (replicate n CHR ''0''))" by blast
  then have "CHR ''1'' \<in> set (replicate n CHR ''0'')" by (rule in_set_takeD)
  then show False by simp
qed

lemma reveal_blank_non_square:
  assumes "w \<noteq> h" and "0 < w" and "0 < h"
  shows "snd (reveal_message (blank w h)) = Inl IndexError"
proof -
  have "\<forall>m \<le> first_bad w h.
      \<not> endswith (take m (lsb_string (blank w h) (scan_order w h))) delimeter"
    by (simp only: lsb_string_blank no_sentinel_in_zeros simp_thms)
  from reveal_message_non_square [OF image_size_blank multiband_blank assms this]
  show ?thesis by simp
qed

lemma length_text_to_binary_ge: "8 * length message \<le> length (text_to_binary message)"
proof -
  have "8 \<le> length (format_08b n)" for n
    by (simp add: format_08b_def)
  then have "8 * length message \<le> length (concat (map format_08b message))"
  proof (induction message)
    case Nil
    show ?case by simp
  next
    case (Cons c message)
    from Cons.prems [of c] Cons.IH [OF Cons.prems] show ?case by simp
  qed
  then show ?thesis by (simp add: text_to_binary_concat)
qed

lemma hide_blank_non_square:
  assumes "w \<noteq> h" and "0 < w" and "0 < h"
  shows "snd (hide_message (blank w h) (replicate (w * h) 0)) = Inl IndexError"
proof -
  from length_text_to_binary_ge [of "replicate (w * h) 0"] first_bad_less [OF assms]
  have "first_bad w h < length (text_to_binary (replicate (w * h) 0) @ delimeter)"
    by simp
  from hide_message_non_square [OF image_size_blank multiband_blank assms this]
  show ?thesis .
qed

lemma hide_body_accesses:
  "gets (fst (hide_body bm row column st)) = [(row, column)]
   \<and> set (map fst (puts (fst (hide_body bm row column st)))) \<subseteq> {(column, row)}"
  by (cases st) (simp add: hide_body_unfold split: sum.split list.split)

lemma bind_ret_flow_finish: "bind (tr, ret_flow r) finish = (tr, r)"
  by (cases r) (simp_all add: ret_flow_def finish_def ret_def)

lemma all_less_list_all: "(\<forall>m<n. P m) = list_all P [0..<n]"
  by (auto simp: list_all_iff)

lemma reveal_first_match_lemma:
  assumes "image_size im = (w, h)" and "0 < n" and "n \<le> w * h"
      and "\<forall>c \<in> set (take n (scan_order w h)). readable im c"
      and "endswith (take n (lsb_string im (scan_order w h))) delimeter"
      and "\<forall>m<n. \<not> endswith (take m (lsb_string im (scan_order w h))) delimeter"
  shows "reveal_message im
         = (map (Get \<circ> prod.swap) (take n (scan_order w h)),
            binary_to_text (take (n - 16) (lsb_string im (scan_order w h))))"
proof -
  let ?cs = "scan_order w h"
  have le: "n \<le> length ?cs" using assms(3) by simp
  have m: "endswith ([] @ take n (lsb_string im ?cs)) delimeter" using assms(5) by simp
  have nm: "\<forall>m. 0 < m \<and> m < n \<longrightarrow> \<not> endswith ([] @ take m (lsb_string im ?cs)) delimeter"
    using assms(6) by simp
  have "take (n - 16) (take n (lsb_string im ?cs)) = take (n - 16) (lsb_string im ?cs)"
    by (simp add: min_def)
  with reveal_flat_first_match [OF assms(2) le assms(4) m nm] assms(1) show ?thesis
    by (simp add: reveal_message_flat bind_ret_flow_finish)
qed

section \<open>The claims about the pixel transforms\<close>

text \<open>
  C1, as amended. On a square grid of multi-band pixels with at least
  \<open>8 * len(M) + 16\<close> pixels, for a message \<open>M\<close> whose characters all have code values in
  [0,255] and whose bitstream (digits and sentinel) has no earlier window of 16 bits equal
  to the sentinel, revealing from the image that hiding \<open>M\<close> saves returns exactly \<open>M\<close>.
\<close>

theorem roundtrip_square_grid:
  assumes "image_size im = (s, s)" and "multiband im"
      and "\<forall>c \<in> set message. c \<le> 255"
      and "8 * length message + 16 \<le> s * s"
      and "sentinel_free (text_to_binary message @ delimeter)"
  shows "snd (roundtrip im message) = Inr message"
  using assms by (rule roundtrip_square)

lemma text_to_binary_Hi: "text_to_binary [72, 105] = ''0100100001101001''"
  by (simp add: text_to_binary_concat format_08b_byte8 byte8_def upt_8)

lemma sentinel_free_Hi: "sentinel_free (text_to_binary [72, 105] @ delimeter)"
  unfolding text_to_binary_Hi by code_simp

theorem roundtrip_square_grid_witness:
  "image_size (blank 6 6) = (6, 6) \<and> multiband (blank 6 6)
   \<and> sentinel_free (text_to_binary [72, 105] @ delimeter)
   \<and> snd (roundtrip (blank 6 6) [72, 105]) = Inr [72, 105]"
proof -
  have "snd (roundtrip (blank 6 6) [72, 105]) = Inr [72, 105]"
    using multiband_blank image_size_blank sentinel_free_Hi
    by (intro roundtrip_square_grid [where s = 6]) simp_all
  then show ?thesis
    by (simp add: multiband_blank image_size_blank sentinel_free_Hi)
qed

text \<open>
  C1 as stated fails: the two characters chr(255) chr(254) have code values in [0,255]
  and the blank 6 by 6 image has 36 pixels, at least \<open>8 * 2 + 16\<close>; the digits of the
  message are the sentinel itself, so reveal stops after 16 pixels and returns the empty
  string.
\<close>

theorem roundtrip_sentinel_collision:
  "(255::nat) \<le> 255 \<and> (254::nat) \<le> 255 \<and> 8 * length [255, 254 :: nat] + 16 \<le> (6::nat) * 6
   \<and> snd (roundtrip (blank 6 6) [255, 254]) = Inr []"
  by code_simp

text \<open>
  C2 fails on the code. \<open>hide_message\<close> reads the pixel at \<open>(row, column)\<close> and stores the
  whole modified tuple at \<open>(column, row)\<close>. On the 5 by 5 image whose pixel at \<open>(x, y)\<close> is
  \<open>(0, x, y)\<close>, hiding the empty message (16 bits) turns the pixel at \<open>(4, 0)\<close> from
  \<open>(0, 4, 0)\<close> into \<open>(1, 0, 4)\<close>: channels 1 and 2 are altered, and the pair
  \<open>(row, column) = (4, 0)\<close> is step 20 of the scan, which the loop never executes.
\<close>

theorem hide_overwrites_other_channels:
  "image_data (gradient 5 5) (4, 0) = [0, 4, 0]
   \<and> map_sum id (\<lambda>r. image_data (fst r) (4, 0)) (snd (hide_message (gradient 5 5) [])) = Inr [1, 0, 4]"
  by code_simp

text \<open>
  C5 fails on the code. On an RGB image of width 1 and height 2 with every pixel
  \<open>(0, 0, 0)\<close> no sentinel is ever read, and \<open>reveal_message\<close> raises \<open>IndexError\<close> at its
  second step, where it reads \<open>pixels[1, 0]\<close>, instead of returning \<open>ERROR\<close>.
\<close>

theorem reveal_raises_on_1x2:
  "reveal_message (blank 1 2) = ([Get (0, 0), Get (1, 0)], Inl IndexError)"
  by code_simp

text \<open>
  C8 fails on the code. An image of width 2 and height 8 has 16 pixels; hiding the empty
  message in it raises \<open>IndexError\<close> at the third step, the write to \<open>pixels[2, 0]\<close>.
\<close>

theorem hide_empty_raises_on_2x8:
  "hide_message (blank 2 8) []
   = ([Get (0, 0), Put (0, 0) [1, 0, 0], Get (0, 1), Put (1, 0) [1, 0, 0],
       Get (0, 2), Put (2, 0) [1, 0, 0]], Inl IndexError)"
proof -
  have "fst (hide_message (blank 2 8) [])
        = [Get (0, 0), Put (0, 0) [1, 0, 0], Get (0, 1), Put (1, 0) [1, 0, 0],
           Get (0, 2), Put (2, 0) [1, 0, 0]]"
    by code_simp
  moreover have "map_sum id (\<lambda>r. ()) (snd (hide_message (blank 2 8) [])) = Inl IndexError"
    by code_simp
  then have "snd (hide_message (blank 2 8) []) = Inl IndexError"
    by (cases "snd (hide_message (blank 2 8) [])") simp_all
  ultimately show ?thesis by (simp add: prod_eq_iff)
qed

text \<open>
  C9 fails on the code. An image of width 1 and height 2 has 2 pixels, fewer than the 32
  bits of the message \<open>Hi\<close>; \<open>hide_message\<close> raises \<open>IndexError\<close> at the second step,
  the write to \<open>pixels[1, 0]\<close>, and saves nothing.
\<close>

theorem hide_raises_on_1x2:
  "hide_message (blank 1 2) [72, 105]
   = ([Get (0, 0), Put (0, 0) [0, 0, 0], Get (0, 1), Put (1, 0) [1, 0, 0]], Inl IndexError)"
proof -
  have "fst (hide_message (blank 1 2) [72, 105])
        = [Get (0, 0), Put (0, 0) [0, 0, 0], Get (0, 1), Put (1, 0) [1, 0, 0]]"
    by code_simp
  moreover have "map_sum id (\<lambda>r. ()) (snd (hide_message (blank 1 2) [72, 105])) = Inl IndexError"
    by code_simp
  then have "snd (hide_message (blank 1 2) [72, 105]) = Inl IndexError"
    by (cases "snd (hide_message (blank 1 2) [72, 105])") simp_all
  ultimately show ?thesis by (simp add: prod_eq_iff)
qed

text \<open>
  C3 fails on the code. The loop pairs \<open>(row, column)\<close> of both operations do run
  \<open>(0,0), (0,1), (1,0), (1,1)\<close> on a 2 by 2 grid, but the pixels that carry the bits are
  not visited in that order: \<open>reveal_message\<close> reads \<open>pixels[column, row]\<close>, so its
  reads are at \<open>(0,0), (1,0), (0,1), (1,1)\<close>, the first axis inner; \<open>hide_message\<close>
  reads at \<open>(0,0), (0,1), (1,0), (1,1)\<close> and writes at \<open>(0,0), (1,0), (0,1), (1,1)\<close>. At
  step 1 the claim has both at \<open>(0,1)\<close>; hide writes bit 1 into \<open>(1,0)\<close> and reveal
  reads \<open>(1,0)\<close>. On a grid of width 2 and height 3 reveal reads
  \<open>(0,0), (1,0), (2,0)\<close> and raises. What does hold is the second half of the claim:
  the \<open>k\<close>-th write of hide and the \<open>k\<close>-th read of reveal are at the same coordinate
  (\<open>shared_scan_order_lemma\<close>).
\<close>

theorem accesses_transposed:
  "scan_order 2 2 = [(0, 0), (0, 1), (1, 0), (1, 1)]
   \<and> fst (reveal_message (blank 2 2)) = [Get (0, 0), Get (1, 0), Get (0, 1), Get (1, 1)]
   \<and> fst (hide_message (gradient 2 2) [])
       = [Get (0, 0), Put (0, 0) [1, 0, 0], Get (0, 1), Put (1, 0) [1, 0, 1],
          Get (1, 0), Put (0, 1) [1, 0, 1], Get (1, 1), Put (1, 1) [1, 1, 1]]
   \<and> reveal_message (blank 2 3) = ([Get (0, 0), Get (1, 0), Get (2, 0)], Inl IndexError)"
  by code_simp

text \<open>
  C4. Let \<open>n\<close> be the first step after which the buffer of lowest bits ends with the
  sentinel (the pixels of the first \<open>n\<close> steps lying in the grid). Then \<open>reveal_message\<close>
  reads exactly the pixels of the first \<open>n\<close> steps and no other, and returns the decoding
  of the first \<open>n - 16\<close> bits; nothing is asked of the bits before the match, so the
  window may lie inside the message bits.
\<close>

theorem reveal_stops_at_first_match:
  assumes "image_size im = (w, h)" and "0 < n" and "n \<le> w * h"
      and "\<forall>c \<in> set (take n (scan_order w h)). readable im c"
      and "endswith (take n (lsb_string im (scan_order w h))) delimeter"
      and "\<forall>m<n. \<not> endswith (take m (lsb_string im (scan_order w h))) delimeter"
  shows "reveal_message im
         = (map (Get \<circ> prod.swap) (take n (scan_order w h)),
            binary_to_text (take (n - 16) (lsb_string im (scan_order w h))))"
  using assms by (rule reveal_first_match_lemma)

theorem reveal_stops_at_first_match_witness:
  "image_size collide = (6, 6)
   \<and> lsb_string collide (scan_order 6 6) = ''111111111111111011111111111111100000''
   \<and> reveal_message collide = (map (Get \<circ> prod.swap) (take 16 (scan_order 6 6)), Inr [])
   \<and> length (fst (reveal_message collide)) = 16"
proof -
  have s: "image_size collide = (6, 6)" by (simp add: collide_def)
  have ls: "lsb_string collide (scan_order 6 6) = ''111111111111111011111111111111100000''"
    by code_simp
  have r: "\<forall>c \<in> set (take 16 (scan_order 6 6)). readable collide c" by code_simp
  have e: "endswith (take 16 (lsb_string collide (scan_order 6 6))) delimeter"
    unfolding ls by code_simp
  have "list_all (\<lambda>m. \<not> endswith (take m (lsb_string collide (scan_order 6 6))) delimeter) [0..<16]"
    unfolding ls by code_simp
  then have f: "\<forall>m<16. \<not> endswith (take m (lsb_string collide (scan_order 6 6))) delimeter"
    by (simp only: all_less_list_all)
  have b: "binary_to_text [] = Inr []"
    by (simp add: binary_to_text_def range_step8_def)
  from reveal_stops_at_first_match [OF s _ _ r e f] s ls b show ?thesis
    by simp
qed

text \<open>
  C10. The body of hide's loop reads the pixel at \<open>(row, column)\<close> and writes, if at all,
  at \<open>(column, row)\<close>; the body of reveal's loop reads at \<open>(column, row)\<close>. Take a grid of
  \<open>w\<close> by \<open>h\<close> multi-band pixels (an image PIL has loaded has at least one pixel along
  each axis). If \<open>w \<noteq> h\<close>, step \<open>first_bad w h\<close> of the scan is a step of the walk whose
  swapped pair lies outside the grid; \<open>hide_message\<close> raises \<open>IndexError\<close> whenever the
  bitstream is longer than that step number, and \<open>reveal_message\<close> raises \<open>IndexError\<close>
  whenever no sentinel has been matched up to that step; each does so on some input of
  that size (the blank image, with a message of \<open>w * h\<close> characters for hide). If
  \<open>w = h\<close> both return normally.
\<close>

theorem square_grids_only:
  assumes "image_size im = (w, h)" and "multiband im" and "0 < w" and "0 < h"
  shows "gets (fst (hide_body bm row column st)) = [(row, column)]
    \<and> set (map fst (puts (fst (hide_body bm row column st)))) \<subseteq> {(column, row)}
    \<and> fst (reveal_body im row column buf) = [Get (column, row)]
    \<and> (w \<noteq> h \<longrightarrow>
          first_bad w h < w * h
        \<and> \<not> in_bounds im (prod.swap (scan_order w h ! first_bad w h))
        \<and> (first_bad w h < length (text_to_binary message @ delimeter)
             \<longrightarrow> snd (hide_message im message) = Inl IndexError)
        \<and> ((\<forall>m \<le> first_bad w h. \<not> endswith (take m (lsb_string im (scan_order w h))) delimeter)
             \<longrightarrow> snd (reveal_message im) = Inl IndexError)
        \<and> snd (hide_message (blank w h) (replicate (w * h) 0)) = Inl IndexError
        \<and> snd (reveal_message (blank w h)) = Inl IndexError)
    \<and> (w = h \<longrightarrow>
          (\<exists>r. snd (hide_message im message) = Inr r) \<and> (\<exists>t. snd (reveal_message im) = Inr t))"
proof -
  have body: "gets (fst (hide_body bm row column st)) = [(row, column)]
    \<and> set (map fst (puts (fst (hide_body bm row column st)))) \<subseteq> {(column, row)}
    \<and> fst (reveal_body im row column buf) = [Get (column, row)]"
    using hide_body_accesses [of bm row column st] fst_reveal_body [of im row column buf]
    by simp
  have ns: "first_bad w h < w * h
        \<and> \<not> in_bounds im (prod.swap (scan_order w h ! first_bad w h))
        \<and> (first_bad w h < length (text_to_binary message @ delimeter)
             \<longrightarrow> snd (hide_message im message) = Inl IndexError)
        \<and> ((\<forall>m \<le> first_bad w h. \<not> endswith (take m (lsb_string im (scan_order w h))) delimeter)
             \<longrightarrow> snd (reveal_message im) = Inl IndexError)
        \<and> snd (hide_message (blank w h) (replicate (w * h) 0)) = Inl IndexError
        \<and> snd (reveal_message (blank w h)) = Inl IndexError" if d: "w \<noteq> h"
  proof (intro conjI impI)
    show "first_bad w h < w * h" using d assms(3,4) by (rule first_bad_less)
    show "\<not> in_bounds im (prod.swap (scan_order w h ! first_bad w h))"
      using d assms(3,4,1) by (rule first_bad_outside)
    show "snd (hide_message im message) = Inl IndexError"
      if "first_bad w h < length (text_to_binary message @ delimeter)"
      using assms(1,2) d assms(3,4) that by (rule hide_message_non_square)
    show "snd (reveal_message im) = Inl IndexError"
      if "\<forall>m \<le> first_bad w h. \<not> endswith (take m (lsb_string im (scan_order w h))) delimeter"
      using reveal_message_non_square [OF assms(1,2) d assms(3,4) that] by simp
    show "snd (hide_message (blank w h) (replicate (w * h) 0)) = Inl IndexError"
      using d assms(3,4) by (rule hide_blank_non_square)
    show "snd (reveal_message (blank w h)) = Inl IndexError"
      using d assms(3,4) by (rule reveal_blank_non_square)
  qed
  have sq: "(\<exists>r. snd (hide_message im message) = Inr r) \<and> (\<exists>t. snd (reveal_message im) = Inr t)"
    if e: "w = h"
  proof
    from assms(1) e have s: "image_size im = (h, h)" by simp
    from hide_message_square [OF s assms(2)] show "\<exists>r. snd (hide_message im message) = Inr r"
      by blast
    from s assms(2) show "\<exists>t. snd (reveal_message im) = Inr t"
      by (rule reveal_message_square_total)
  qed
  from body ns sq show ?thesis by blast
qed

theorem square_grids_only_witness:
  "image_size (blank 2 3) = (2, 3) \<and> multiband (blank 2 3) \<and> first_bad 2 3 = 2
   \<and> scan_order 2 3 ! 2 = (0, 2)
   \<and> snd (hide_message (blank 2 3) [72, 105]) = Inl IndexError
   \<and> snd (reveal_message (blank 2 3)) = Inl IndexError
   \<and> image_size (blank 3 2) = (3, 2) \<and> first_bad 3 2 = 4
   \<and> snd (hide_message (blank 3 2) [72, 105]) = Inl IndexError
   \<and> snd (reveal_message (blank 3 2)) = Inl IndexError"
proof -
  have l: "length (text_to_binary [72, 105] @ delimeter) = 32"
    by (simp add: text_to_binary_concat format_08b_byte8 byte8_def upt_8)
  have f: "first_bad 2 3 = 2" "first_bad 3 2 = 4" by (simp_all add: first_bad_def)
  have s: "scan_order 2 3 ! 2 = (0, 2)" by (simp add: nth_scan_order)
  from square_grids_only [OF image_size_blank multiband_blank, of 2 3 _ _ _ _ _ "[72, 105]"]
    square_grids_only [OF image_size_blank multiband_blank, of 3 2 _ _ _ _ _ "[72, 105]"]
    l f s
  show ?thesis
    by (simp add: image_size_blank multiband_blank lsb_string_blank)
qed

end
